theory Spec2Isabelle
  imports Complex_Main
begin

section \<open>The coupled solve loop of \<open>examples/elphf/input.py\<close>\<close>

text \<open>
  The example builds five fields on one mesh (the phase field \<open>xi\<close>, the electrostatic
  potential \<open>phi\<close>, the substitutional species \<open>SO4\<close> and \<open>Cu\<close>, the interstitial
  species \<open>e-\<close>), binds an equation to each, and then runs the loop of lines 285 to 319:
  500 outer steps, each of which snapshots the fields and sweeps 100 times over the
  equations. This theory embeds that loop. The finite-volume library (variables, terms,
  solvers, viewers) is not part of the example; its numerical work enters the model as a
  parameter, the \<^emph>\<open>kernel\<close>, and the calls into it are logged as events.

  Array entries are Python floats in the source. They are modelled as reals: the loop
  itself only compares them (\<open>max\<close>) and adds the exactly representable \<open>dt = 1.\<close> to
  \<open>elapsed\<close>; not-a-number entries are outside the model.
\<close>

subsection \<open>Data\<close>

datatype field_id = Phase | Potential | SO4 | Cu | Electron

text \<open>Lines 115 and 131: the two lists of solute components.\<close>

definition substitutionals :: "field_id list" where
  "substitutionals = [SO4, Cu]"

definition interstitials :: "field_id list" where
  "interstitials = [Electron]"

text \<open>Line 288: \<open>[phase, potential] + substitutionals + interstitials\<close>.\<close>

definition all_fields :: "field_id list" where
  "all_fields = [Phase, Potential] @ substitutionals @ interstitials"

text \<open>
  A cell variable: its current value array and, when it was built with the keep-old flag
  \<open>hasOld\<close>, its ``old'' snapshot; \<open>None\<close> is a variable that keeps no old state.
\<close>

record cellvar =
  val :: "real list"
  old :: "real list option"

text \<open>
  Modelled from the spec: the constructor of the library's cell variable, which is not in
  the example. Section 6 of the specification: a variable is constructed with ``(domain,
  initial value, name, keep-old flag)''. With the flag the old state starts as a copy of
  the value; without it the variable keeps none.
\<close>

definition CellVariable :: "real list \<Rightarrow> bool \<Rightarrow> cellvar" where
  "CellVariable v keep_old = \<lparr>val = v, old = (if keep_old then Some v else None)\<rparr>"

text \<open>
  The flag each variable of the example is built with. Line 73 passes \<open>hasOld = 1\<close> for
  the phase field; the components are \<open>ComponentVariable\<close>s, whose constructor has the
  default \<open>hasOld = 1\<close> and hands it on (lines 87 and 93); line 147 builds the potential
  without the flag, so it keeps no old state (its equation, line 249, has no transient
  term).
\<close>

fun hasOld :: "field_id \<Rightarrow> bool" where
  "hasOld Phase = True"
| "hasOld Potential = False"
| "hasOld SO4 = True"
| "hasOld Cu = True"
| "hasOld Electron = True"

datatype faces = FacesLeft

datatype boundary_condition = FixedValue faces real

datatype linear_solver = LinearLUSolver

text \<open>
  One call \<open>equation.solve(var = ..., dt = ..., boundaryConditions = ..., solver = ...)\<close>.
  \<open>equation\<close> names the field that owns the equation object the method is called on.
  A keyword argument that the call does not pass is \<open>None\<close>.
\<close>

record solve_call =
  equation :: field_id
  var :: field_id
  dt_arg :: real
  bcs_arg :: "boundary_condition list option"
  solver_arg :: "linear_solver option"

datatype viewer = ResidualViewer | PhaseViewer | ConcViewer | PotentialViewer

text \<open>The calls into the library and the output of the loop, in the order they happen.\<close>

datatype event =
    UpdateOld field_id
  | Solve solve_call
  | Plot viewer
  | Print real real

datatype error = SolveFailure | ValueError

text \<open>
  The state the loop works on: the five variables, the \<open>residual\<close> attribute of each
  equation, the residual variables created in lines 275 to 278 (\<open>phase.residual\<close> and so
  on), the loop's own \<open>elapsed\<close> and \<open>residual\<close>, and the event log.
\<close>

record store =
  vars :: "field_id \<Rightarrow> cellvar"
  eq_residual :: "field_id \<Rightarrow> real list"
  res_var :: "field_id \<Rightarrow> real list"
  elapsed :: real
  residual :: real
  trace :: "event list"

text \<open>
  An exception leaves the objects as they are when it is raised, so a failed run
  returns the error together with the store at that moment.
\<close>

type_synonym result = "(error \<times> store) + store"

type_synonym stmt = "store \<Rightarrow> result"

text \<open>
  The numerical work of one solve: from the call and the current and old values of all
  fields, the new value array of the solved variable and the residual array of the
  equation, or \<open>None\<close> when the solve fails.
\<close>

type_synonym kernel = "solve_call \<Rightarrow> (field_id \<Rightarrow> cellvar) \<Rightarrow> (real list \<times> real list) option"

subsection \<open>Statements\<close>

text \<open>A block of statements runs in order and stops at the first exception.\<close>

fun seq :: "stmt list \<Rightarrow> stmt" where
  "seq [] s = Inr s"
| "seq (c # cs) s = (case c s of Inl x \<Rightarrow> Inl x | Inr s' \<Rightarrow> seq cs s')"

text \<open>\<open>for x in xs: body\<close> and \<open>for i in range(n): body\<close> (the index is never read).\<close>

definition for_each :: "('a \<Rightarrow> stmt) \<Rightarrow> 'a list \<Rightarrow> stmt" where
  "for_each body xs = seq (map body xs)"

definition for_range :: "nat \<Rightarrow> stmt \<Rightarrow> stmt" where
  "for_range n body = seq (replicate n body)"

definition assign :: "(store \<Rightarrow> store) \<Rightarrow> stmt" where
  "assign f s = Inr (f s)"

definition final_store :: "result \<Rightarrow> store" where
  "final_store r = (case r of Inl (e, s) \<Rightarrow> s | Inr s \<Rightarrow> s)"

subsection \<open>The library calls\<close>

text \<open>
  Modelled from the spec: \<open>updateOld\<close> of the library's cell variable, which is not in the
  example. Section 3 of the specification: ``\<open>updateOld\<close> snapshots current into old''. A
  variable that keeps no old state is left as it is: the example calls \<open>updateOld\<close> on the
  potential in every outer step (line 289) and goes on to its solves.
\<close>

definition updateOld :: "cellvar \<Rightarrow> cellvar" where
  "updateOld v = (case old v of None \<Rightarrow> v | Some previous \<Rightarrow> v\<lparr>old := Some (val v)\<rparr>)"

definition call_updateOld :: "field_id \<Rightarrow> stmt" where
  "call_updateOld f s =
     Inr (s\<lparr>vars := (vars s)(f := updateOld (vars s f)), trace := trace s @ [UpdateOld f]\<rparr>)"

text \<open>
  Modelled from the spec: \<open>solve\<close> of the library's equation, which is not in the example.
  Sections 3, 4.1 and 6 of the specification: the solve mutates in place the value array
  of the field it is given, populates the residual of the equation, and fails with a
  \<open>SolveFailure\<close> when the underlying solve does not converge or the system is singular.
\<close>

definition solve :: "kernel \<Rightarrow> solve_call \<Rightarrow> stmt" where
  "solve kern c s =
     (let s1 = s\<lparr>trace := trace s @ [Solve c]\<rparr> in
      case kern c (vars s) of
        None \<Rightarrow> Inl (SolveFailure, s1)
      | Some (v, r) \<Rightarrow>
          Inr (s1\<lparr>vars := (vars s)(var c := (vars s (var c))\<lparr>val := v\<rparr>),
                  eq_residual := (eq_residual s)(equation c := r)\<rparr>))"

definition plot :: "viewer \<Rightarrow> stmt" where
  "plot v s = Inr (s\<lparr>trace := trace s @ [Plot v]\<rparr>)"

subsection \<open>Python and Numeric primitives\<close>

text \<open>The builtin \<open>max\<close> of a sequence; it raises \<open>ValueError\<close> on an empty one.\<close>

fun py_max :: "real list \<Rightarrow> real option" where
  "py_max [] = None"
| "py_max (x # xs) = Some (fold max xs x)"

text \<open>
  \<open>a[:] = b\<close> on one-dimensional arrays: \<open>b\<close> has the length of \<open>a\<close>, or one entry that
  is repeated; any other shape raises \<open>ValueError\<close>. The result is the new content of \<open>a\<close>.
\<close>

definition assign_slice :: "real list \<Rightarrow> real list \<Rightarrow> real list option" where
  "assign_slice a b =
     (if length b = length a then Some b
      else case b of [x] \<Rightarrow> Some (replicate (length a) x) | _ \<Rightarrow> None)"

subsection \<open>The loop, lines 285 to 319\<close>

definition dt :: real where
  "dt = 1"

definition solver :: linear_solver where
  "solver = LinearLUSolver"

text \<open>Line 273.\<close>

definition bcs :: "boundary_condition list" where
  "bcs = [FixedValue FacesLeft 0]"

text \<open>\<open>residual = max(max(f.equation.residual), residual)\<close>\<close>

definition track_residual :: "field_id \<Rightarrow> stmt" where
  "track_residual f s =
     (case py_max (eq_residual s f) of
        None \<Rightarrow> Inl (ValueError, s)
      | Some m \<Rightarrow> Inr (s\<lparr>residual := max m (residual s)\<rparr>))"

text \<open>\<open>f.residual[:] = f.equation.residual\<close>\<close>

definition store_residual :: "field_id \<Rightarrow> stmt" where
  "store_residual f s =
     (case assign_slice (res_var s f) (eq_residual s f) of
        None \<Rightarrow> Inl (ValueError, s)
      | Some a \<Rightarrow> Inr (s\<lparr>res_var := (res_var s)(f := a)\<rparr>))"

text \<open>Lines 293, 298 and 304: the three forms of the call.\<close>

definition phase_call :: solve_call where
  "phase_call = \<lparr>equation = Phase, var = Phase, dt_arg = dt, bcs_arg = None, solver_arg = None\<rparr>"

definition potential_call :: solve_call where
  "potential_call =
     \<lparr>equation = Potential, var = Potential, dt_arg = dt, bcs_arg = Some bcs, solver_arg = None\<rparr>"

definition component_call :: "field_id \<Rightarrow> solve_call" where
  "component_call Cj =
     \<lparr>equation = Cj, var = Cj, dt_arg = dt, bcs_arg = None, solver_arg = Some solver\<rparr>"

text \<open>Lines 291 to 312: the body of the inner loop.\<close>

definition inner_iteration :: "kernel \<Rightarrow> stmt" where
  "inner_iteration kern =
     seq [assign (\<lambda>s. s\<lparr>residual := 0\<rparr>),
          solve kern phase_call,
          track_residual Phase,
          store_residual Phase,
          solve kern potential_call,
          track_residual Potential,
          store_residual Potential,
          for_each (\<lambda>Cj. seq [solve kern (component_call Cj),
                               track_residual Cj,
                               store_residual Cj])
                   (substitutionals @ interstitials),
          plot ResidualViewer]"

text \<open>Line 319: \<open>print elapsed, residual\<close>.\<close>

definition print_status :: stmt where
  "print_status s = Inr (s\<lparr>trace := trace s @ [Print (elapsed s) (residual s)]\<rparr>)"

text \<open>
  Lines 288 to 319: the body of the outer loop. \<open>is_main\<close> is the test
  \<open>__name__ == '__main__'\<close>.
\<close>

definition outer_step :: "bool \<Rightarrow> kernel \<Rightarrow> stmt" where
  "outer_step is_main kern =
     seq [for_each call_updateOld all_fields,
          for_range 100 (inner_iteration kern),
          assign (\<lambda>s. s\<lparr>elapsed := elapsed s + dt\<rparr>),
          if is_main
          then seq [plot PhaseViewer, plot ConcViewer, plot PotentialViewer, print_status]
          else seq []]"

text \<open>Lines 286 to 319.\<close>

definition solve_loop :: "bool \<Rightarrow> kernel \<Rightarrow> stmt" where
  "solve_loop is_main kern =
     seq [assign (\<lambda>s. s\<lparr>elapsed := 0\<rparr>),
          for_range 500 (outer_step is_main kern)]"

subsection \<open>Reading the event log\<close>

fun solve_calls :: "event list \<Rightarrow> solve_call list" where
  "solve_calls [] = []"
| "solve_calls (Solve c # es) = c # solve_calls es"
| "solve_calls (e # es) = solve_calls es"

text \<open>How often the equation of field \<open>f\<close> was solved.\<close>

definition solves_of :: "field_id \<Rightarrow> event list \<Rightarrow> nat" where
  "solves_of f es = length (filter (\<lambda>c. equation c = f) (solve_calls es))"

subsection \<open>Concrete inputs\<close>

text \<open>
  A kernel that halves the solved variable and reports the sum of its entries as residual,
  a kernel that fails on the equation of \<open>Cu\<close>, and two stores
  whose variables are built with the flags of the example and hold the same current
  values, but which differ in everything else.
\<close>

definition demo_kernel :: kernel where
  "demo_kernel c F = Some (map (\<lambda>x. x / 2) (val (F (var c))), [sum_list (val (F (var c))), 0])"

definition cu_failing_kernel :: kernel where
  "cu_failing_kernel c F = (if equation c = Cu then None else demo_kernel c F)"

definition demo_store :: store where
  "demo_store =
     \<lparr>vars = (\<lambda>f. CellVariable [4, 8] (hasOld f)), eq_residual = (\<lambda>f. []),
      res_var = (\<lambda>f. [0, 0]), elapsed = 0, residual = 7, trace = []\<rparr>"

definition other_store :: store where
  "other_store =
     \<lparr>vars = (\<lambda>f. (CellVariable [1, 1] (hasOld f))\<lparr>val := [4, 8]\<rparr>),
      eq_residual = (\<lambda>f. [5]),
      res_var = (\<lambda>f. [3, 3]), elapsed = 9, residual = 2, trace = [Plot ConcViewer]\<rparr>"

subsection \<open>Conditions under which no statement of the loop raises\<close>

definition kernel_succeeds :: "nat \<Rightarrow> kernel \<Rightarrow> bool" where
  "kernel_succeeds n kern \<longleftrightarrow>
     (\<forall>c F. \<exists>v r. kern c F = Some (v, r) \<and> r \<noteq> [] \<and> (length r = n \<or> length r = 1))"

text \<open>The variables of a store keep an old state where the example builds them so.\<close>

definition as_built :: "store \<Rightarrow> bool" where
  "as_built s \<longleftrightarrow> (\<forall>f. (old (vars s f) \<noteq> None) = hasOld f)"

definition shape_ok :: "nat \<Rightarrow> store \<Rightarrow> bool" where
  "shape_ok n s \<longleftrightarrow> (\<forall>f. length (res_var s f) = n)"

text \<open>The three statements the loop runs for one field, as one block.\<close>

definition solve_and_record :: "kernel \<Rightarrow> solve_call \<Rightarrow> stmt" where
  "solve_and_record kern c =
     seq [solve kern c, track_residual (equation c), store_residual (equation c)]"

text \<open>The call that one inner iteration makes for field \<open>f\<close>.\<close>

definition call_for :: "field_id \<Rightarrow> solve_call" where
  "call_for f = (case f of Phase \<Rightarrow> phase_call | Potential \<Rightarrow> potential_call
                 | _ \<Rightarrow> component_call f)"

text \<open>
  From store \<open>a\<close> to store \<open>b\<close> no ``old'' snapshot changed and no \<open>updateOld\<close> was
  called.
\<close>

definition no_snapshot :: "store \<Rightarrow> store \<Rightarrow> bool" where
  "no_snapshot a b \<longleftrightarrow>
     (\<forall>f. old (vars b f) = old (vars a f))
     \<and> (\<exists>evs. trace b = trace a @ evs \<and> (\<forall>f. UpdateOld f \<notin> set evs))"

text \<open>How a run ended: the exception it raised, or \<open>None\<close> when it completed.\<close>

definition outcome :: "result \<Rightarrow> error option" where
  "outcome r = (case r of Inl (e, s) \<Rightarrow> Some e | Inr s \<Rightarrow> None)"

text \<open>
  Two stores hold the same variables on the same mesh; two runs ended the same way in
  such stores.
\<close>

definition same_fields :: "store \<Rightarrow> store \<Rightarrow> bool" where
  "same_fields a b \<longleftrightarrow>
     vars a = vars b \<and> (\<forall>f. length (res_var a f) = length (res_var b f))"

definition same_outcome :: "result \<Rightarrow> result \<Rightarrow> bool" where
  "same_outcome r1 r2 \<longleftrightarrow>
     outcome r1 = outcome r2 \<and> same_fields (final_store r1) (final_store r2)"

section \<open>Properties\<close>

subsection \<open>Blocks of statements\<close>

lemma seq_Cons_Inr: "seq (c # cs) s = Inr s' \<longleftrightarrow> (\<exists>t. c s = Inr t \<and> seq cs t = Inr s')"
  by (cases "c s") auto

lemma seq_Nil_Inr: "seq [] s = Inr s' \<longleftrightarrow> s' = s"
  by auto

lemma seq_append:
  "seq (a @ b) s = (case seq a s of Inl x \<Rightarrow> Inl x | Inr t \<Rightarrow> seq b t)"
  by (induction a arbitrary: s) (auto split: sum.splits)

lemma for_range_0: "for_range 0 body s = Inr s"
  by (simp add: for_range_def)

lemma for_range_Suc:
  "for_range (Suc n) body s = (case body s of Inl x \<Rightarrow> Inl x | Inr t \<Rightarrow> for_range n body t)"
  by (simp add: for_range_def split: sum.splits)

lemma for_range_snoc:
  "for_range (Suc n) body s = (case for_range n body s of Inl x \<Rightarrow> Inl x | Inr t \<Rightarrow> body t)"
proof -
  have "replicate (Suc n) body = replicate n body @ [body]"
    by (simp add: replicate_append_same)
  then show ?thesis
    unfolding for_range_def by (simp only: seq_append) (simp split: sum.splits)
qed

lemma plot_Inr: "plot v s = Inr t \<longleftrightarrow> t = s\<lparr>trace := trace s @ [Plot v]\<rparr>"
  by (auto simp: plot_def)

lemma assign_Inr: "assign f s = Inr t \<longleftrightarrow> t = f s"
  by (auto simp: assign_def)

subsection \<open>One inner iteration\<close>

lemma fold_max_Max: "fold max xs (x::real) = Max (insert x (set xs))"
  using Max.set_eq_fold [of x xs] by simp

lemma py_max_Some: "py_max r = Some m \<longleftrightarrow> r \<noteq> [] \<and> m = Max (set r)"
  by (cases r) (auto simp: fold_max_Max)

lemma inner_iteration_blocks:
  "inner_iteration kern =
     seq [assign (\<lambda>s. s\<lparr>residual := 0\<rparr>),
          solve_and_record kern phase_call,
          solve_and_record kern potential_call,
          solve_and_record kern (component_call SO4),
          solve_and_record kern (component_call Cu),
          solve_and_record kern (component_call Electron),
          plot ResidualViewer]"
  by (rule ext)
    (simp add: inner_iteration_def solve_and_record_def for_each_def substitutionals_def
      interstitials_def phase_call_def potential_call_def component_call_def
      split: sum.splits)

lemma solve_and_record_Inr:
  assumes "solve_and_record kern c s = Inr t"
  shows "\<exists>v r. kern c (vars s) = Some (v, r) \<and> r \<noteq> []
           \<and> vars t = (vars s)(var c := (vars s (var c))\<lparr>val := v\<rparr>)
           \<and> eq_residual t = (eq_residual s)(equation c := r)
           \<and> residual t = max (Max (set r)) (residual s)
           \<and> assign_slice (res_var s (equation c)) r = Some (res_var t (equation c))
           \<and> (\<forall>g. g \<noteq> equation c \<longrightarrow> res_var t g = res_var s g)
           \<and> trace t = trace s @ [Solve c]
           \<and> elapsed t = elapsed s"
  using assms
  by (auto simp: solve_and_record_def solve_def track_residual_def store_residual_def
      py_max_Some Let_def split: option.splits sum.splits prod.splits)

lemma inner_iteration_Inr:
  assumes "inner_iteration kern s = Inr s'"
  shows "\<exists>s1 s2 s3 s4 s5.
           solve_and_record kern phase_call (s\<lparr>residual := 0\<rparr>) = Inr s1
         \<and> solve_and_record kern potential_call s1 = Inr s2
         \<and> solve_and_record kern (component_call SO4) s2 = Inr s3
         \<and> solve_and_record kern (component_call Cu) s3 = Inr s4
         \<and> solve_and_record kern (component_call Electron) s4 = Inr s5
         \<and> s' = s5\<lparr>trace := trace s5 @ [Plot ResidualViewer]\<rparr>"
  using assms
  by (simp add: inner_iteration_blocks seq_Cons_Inr seq_Nil_Inr plot_Inr assign_Inr
      del: seq.simps)

lemma Max_of_six:
  "Max {z, a, b, c, d, e} = max e (max d (max c (max b (max a (z::real)))))"
  by (simp add: max.assoc max.commute max.left_commute)

lemma inner_iteration_residual:
  assumes "inner_iteration kern s = Inr s'"
  shows "residual s' = Max (insert 0 ((\<lambda>f. Max (set (eq_residual s' f))) ` set all_fields))"
    and "eq_residual s' f \<noteq> []"
proof -
  from inner_iteration_Inr [OF assms] obtain s1 s2 s3 s4 s5 where
    b1: "solve_and_record kern phase_call (s\<lparr>residual := 0\<rparr>) = Inr s1" and
    b2: "solve_and_record kern potential_call s1 = Inr s2" and
    b3: "solve_and_record kern (component_call SO4) s2 = Inr s3" and
    b4: "solve_and_record kern (component_call Cu) s3 = Inr s4" and
    b5: "solve_and_record kern (component_call Electron) s4 = Inr s5" and
    fin: "s' = s5\<lparr>trace := trace s5 @ [Plot ResidualViewer]\<rparr>"
    by blast
  from solve_and_record_Inr [OF b1] obtain r1 where
    r1: "r1 \<noteq> []" "eq_residual s1 = (eq_residual s)(Phase := r1)"
        "residual s1 = max (Max (set r1)) 0"
    by (auto simp: phase_call_def)
  from solve_and_record_Inr [OF b2] obtain r2 where
    r2: "r2 \<noteq> []" "eq_residual s2 = (eq_residual s1)(Potential := r2)"
        "residual s2 = max (Max (set r2)) (residual s1)"
    by (auto simp: potential_call_def)
  from solve_and_record_Inr [OF b3] obtain r3 where
    r3: "r3 \<noteq> []" "eq_residual s3 = (eq_residual s2)(SO4 := r3)"
        "residual s3 = max (Max (set r3)) (residual s2)"
    by (auto simp: component_call_def)
  from solve_and_record_Inr [OF b4] obtain r4 where
    r4: "r4 \<noteq> []" "eq_residual s4 = (eq_residual s3)(Cu := r4)"
        "residual s4 = max (Max (set r4)) (residual s3)"
    by (auto simp: component_call_def)
  from solve_and_record_Inr [OF b5] obtain r5 where
    r5: "r5 \<noteq> []" "eq_residual s5 = (eq_residual s4)(Electron := r5)"
        "residual s5 = max (Max (set r5)) (residual s4)"
    by (auto simp: component_call_def)
  have e: "eq_residual s' Phase = r1" "eq_residual s' Potential = r2"
    "eq_residual s' SO4 = r3" "eq_residual s' Cu = r4" "eq_residual s' Electron = r5"
    by (simp_all add: fin r1(2) r2(2) r3(2) r4(2) r5(2))
  show "eq_residual s' f \<noteq> []"
    using e r1(1) r2(1) r3(1) r4(1) r5(1) by (cases f) simp_all
  have res: "residual s' = max (Max (set r5)) (max (Max (set r4)) (max (Max (set r3))
      (max (Max (set r2)) (max (Max (set r1)) 0))))"
    by (simp add: fin r1(3) r2(3) r3(3) r4(3) r5(3))
  have img: "insert 0 ((\<lambda>f. Max (set (eq_residual s' f))) ` set all_fields)
      = {0, Max (set r1), Max (set r2), Max (set r3), Max (set r4), Max (set r5)}"
    by (simp add: all_fields_def substitutionals_def interstitials_def e)
  show "residual s' = Max (insert 0 ((\<lambda>f. Max (set (eq_residual s' f))) ` set all_fields))"
    unfolding img res Max_of_six ..
qed

lemma call_for_simps:
  "call_for Phase = phase_call" "call_for Potential = potential_call"
  "call_for SO4 = component_call SO4" "call_for Cu = component_call Cu"
  "call_for Electron = component_call Electron"
  by (simp_all add: call_for_def)

lemma call_for_owner: "equation (call_for f) = f" "var (call_for f) = f"
  by (cases f; simp add: call_for_def phase_call_def potential_call_def component_call_def)+

lemma inner_iteration_chain:
  assumes "inner_iteration kern s = Inr s'"
  obtains s1 s2 s3 s4 s5 where
    "solve_and_record kern (call_for Phase) (s\<lparr>residual := 0\<rparr>) = Inr s1"
    "solve_and_record kern (call_for Potential) s1 = Inr s2"
    "solve_and_record kern (call_for SO4) s2 = Inr s3"
    "solve_and_record kern (call_for Cu) s3 = Inr s4"
    "solve_and_record kern (call_for Electron) s4 = Inr s5"
    "s' = s5\<lparr>trace := trace s5 @ [Plot ResidualViewer]\<rparr>"
  using inner_iteration_Inr [OF assms] unfolding call_for_simps by blast

lemma inner_iteration_trace:
  assumes "inner_iteration kern s = Inr s'"
  shows "trace s' = trace s @ map (\<lambda>f. Solve (call_for f)) all_fields @ [Plot ResidualViewer]"
proof -
  from assms obtain s1 s2 s3 s4 s5 where
    b: "solve_and_record kern (call_for Phase) (s\<lparr>residual := 0\<rparr>) = Inr s1"
    "solve_and_record kern (call_for Potential) s1 = Inr s2"
    "solve_and_record kern (call_for SO4) s2 = Inr s3"
    "solve_and_record kern (call_for Cu) s3 = Inr s4"
    "solve_and_record kern (call_for Electron) s4 = Inr s5"
    and fin: "s' = s5\<lparr>trace := trace s5 @ [Plot ResidualViewer]\<rparr>"
    by (rule inner_iteration_chain)
  have "trace s1 = trace s @ [Solve (call_for Phase)]"
    "trace s2 = trace s1 @ [Solve (call_for Potential)]"
    "trace s3 = trace s2 @ [Solve (call_for SO4)]"
    "trace s4 = trace s3 @ [Solve (call_for Cu)]"
    "trace s5 = trace s4 @ [Solve (call_for Electron)]"
    using b [THEN solve_and_record_Inr] by auto
  then show ?thesis
    by (simp add: fin all_fields_def substitutionals_def interstitials_def)
qed

text \<open>
  Each solve of a completed inner iteration is made on the variables as they are at that
  moment: the fields solved earlier in the iteration with their new values, the others
  with the values from before the iteration. What it returns is what the field and its
  equation hold when the iteration ends.
\<close>

lemma inner_iteration_reads:
  assumes "inner_iteration kern s = Inr s'"
  shows "\<exists>F. kern (call_for f) F = Some (val (vars s' f), eq_residual s' f)
           \<and> (\<forall>g. F g = (if g \<in> set (takeWhile (\<lambda>x. x \<noteq> f) all_fields)
                           then vars s' g else vars s g))"
    and "old (vars s' f) = old (vars s f)"
proof -
  from assms obtain s1 s2 s3 s4 s5 where
    b1: "solve_and_record kern (call_for Phase) (s\<lparr>residual := 0\<rparr>) = Inr s1" and
    b2: "solve_and_record kern (call_for Potential) s1 = Inr s2" and
    b3: "solve_and_record kern (call_for SO4) s2 = Inr s3" and
    b4: "solve_and_record kern (call_for Cu) s3 = Inr s4" and
    b5: "solve_and_record kern (call_for Electron) s4 = Inr s5" and
    fin: "s' = s5\<lparr>trace := trace s5 @ [Plot ResidualViewer]\<rparr>"
    by (rule inner_iteration_chain)
  from solve_and_record_Inr [OF b1] obtain v1 r1 where
    k1: "kern (call_for Phase) (vars s) = Some (v1, r1)" and
    u1: "vars s1 = (vars s)(Phase := (vars s Phase)\<lparr>val := v1\<rparr>)"
        "eq_residual s1 = (eq_residual s)(Phase := r1)"
    by (auto simp: call_for_owner)
  from solve_and_record_Inr [OF b2] obtain v2 r2 where
    k2: "kern (call_for Potential) (vars s1) = Some (v2, r2)" and
    u2: "vars s2 = (vars s1)(Potential := (vars s1 Potential)\<lparr>val := v2\<rparr>)"
        "eq_residual s2 = (eq_residual s1)(Potential := r2)"
    by (auto simp: call_for_owner)
  from solve_and_record_Inr [OF b3] obtain v3 r3 where
    k3: "kern (call_for SO4) (vars s2) = Some (v3, r3)" and
    u3: "vars s3 = (vars s2)(SO4 := (vars s2 SO4)\<lparr>val := v3\<rparr>)"
        "eq_residual s3 = (eq_residual s2)(SO4 := r3)"
    by (auto simp: call_for_owner)
  from solve_and_record_Inr [OF b4] obtain v4 r4 where
    k4: "kern (call_for Cu) (vars s3) = Some (v4, r4)" and
    u4: "vars s4 = (vars s3)(Cu := (vars s3 Cu)\<lparr>val := v4\<rparr>)"
        "eq_residual s4 = (eq_residual s3)(Cu := r4)"
    by (auto simp: call_for_owner)
  from solve_and_record_Inr [OF b5] obtain v5 r5 where
    k5: "kern (call_for Electron) (vars s4) = Some (v5, r5)" and
    u5: "vars s5 = (vars s4)(Electron := (vars s4 Electron)\<lparr>val := v5\<rparr>)"
        "eq_residual s5 = (eq_residual s4)(Electron := r5)"
    by (auto simp: call_for_owner)
  note fs = all_fields_def substitutionals_def interstitials_def
  show "old (vars s' f) = old (vars s f)"
    by (simp add: fin u1(1) u2(1) u3(1) u4(1) u5(1))
  show "\<exists>F. kern (call_for f) F = Some (val (vars s' f), eq_residual s' f)
           \<and> (\<forall>g. F g = (if g \<in> set (takeWhile (\<lambda>x. x \<noteq> f) all_fields)
                           then vars s' g else vars s g))"
  proof (cases f)
    case Phase
    have "kern (call_for Phase) (vars s) = Some (val (vars s' Phase), eq_residual s' Phase)"
      by (simp add: k1 fin u1 u2 u3 u4 u5)
    moreover have "vars s g = (if g \<in> set (takeWhile (\<lambda>x. x \<noteq> Phase) all_fields)
        then vars s' g else vars s g)" for g
      by (simp add: fs)
    ultimately show ?thesis
      unfolding Phase by blast
  next
    case Potential
    have "kern (call_for Potential) (vars s1)
        = Some (val (vars s' Potential), eq_residual s' Potential)"
      by (simp add: k2 fin u2 u3 u4 u5)
    moreover have "vars s1 g = (if g \<in> set (takeWhile (\<lambda>x. x \<noteq> Potential) all_fields)
        then vars s' g else vars s g)" for g
      by (cases g) (simp_all add: fs fin u1(1) u2(1) u3(1) u4(1) u5(1))
    ultimately show ?thesis
      unfolding Potential by blast
  next
    case SO4
    have "kern (call_for SO4) (vars s2) = Some (val (vars s' SO4), eq_residual s' SO4)"
      by (simp add: k3 fin u3 u4 u5)
    moreover have "vars s2 g = (if g \<in> set (takeWhile (\<lambda>x. x \<noteq> SO4) all_fields)
        then vars s' g else vars s g)" for g
      by (cases g) (simp_all add: fs fin u1(1) u2(1) u3(1) u4(1) u5(1))
    ultimately show ?thesis
      unfolding SO4 by blast
  next
    case Cu
    have "kern (call_for Cu) (vars s3) = Some (val (vars s' Cu), eq_residual s' Cu)"
      by (simp add: k4 fin u4 u5)
    moreover have "vars s3 g = (if g \<in> set (takeWhile (\<lambda>x. x \<noteq> Cu) all_fields)
        then vars s' g else vars s g)" for g
      by (cases g) (simp_all add: fs fin u1(1) u2(1) u3(1) u4(1) u5(1))
    ultimately show ?thesis
      unfolding Cu by blast
  next
    case Electron
    have "kern (call_for Electron) (vars s4)
        = Some (val (vars s' Electron), eq_residual s' Electron)"
      by (simp add: k5 fin u5)
    moreover have "vars s4 g = (if g \<in> set (takeWhile (\<lambda>x. x \<noteq> Electron) all_fields)
        then vars s' g else vars s g)" for g
      by (cases g) (simp_all add: fs fin u1(1) u2(1) u3(1) u4(1) u5(1))
    ultimately show ?thesis
      unfolding Electron by blast
  qed
qed

lemma inner_iteration_outputs:
  assumes "inner_iteration kern s = Inr s'"
  shows "\<exists>F. kern (call_for f) F = Some (val (vars s' f), eq_residual s' f)"
    and "old (vars s' f) = old (vars s f)"
  using inner_iteration_reads [OF assms, of f] by blast+

lemma seq_total:
  assumes "\<forall>c\<in>set cs. \<forall>s. I s \<longrightarrow> (\<exists>t. c s = Inr t \<and> I t)" and "I s"
  shows "\<exists>t. seq cs s = Inr t \<and> I t"
  using assms
proof (induction cs arbitrary: s)
  case Nil
  then show ?case by simp
next
  case (Cons c cs)
  from Cons.prems obtain t where t: "c s = Inr t" "I t"
    by auto
  from Cons.IH [of t] Cons.prems(1) t(2) obtain u where "seq cs t = Inr u" "I u"
    by auto
  with t show ?case by simp
qed

lemma assign_slice_ok:
  assumes "r \<noteq> []" "length r = length a \<or> length r = 1"
  shows "\<exists>a'. assign_slice a r = Some a' \<and> length a' = length a"
  using assms by (cases r; cases "tl r") (auto simp: assign_slice_def)

lemma solve_and_record_total:
  assumes "kernel_succeeds n kern" "shape_ok n s"
  shows "\<exists>t. solve_and_record kern c s = Inr t \<and> shape_ok n t"
proof -
  from assms(1) obtain v r where
    k: "kern c (vars s) = Some (v, r)" and r: "r \<noteq> []" "length r = n \<or> length r = 1"
    unfolding kernel_succeeds_def by blast
  from assms(2) have "length (res_var s (equation c)) = n"
    by (simp add: shape_ok_def)
  with assign_slice_ok [of r "res_var s (equation c)"] r obtain a' where
    a: "assign_slice (res_var s (equation c)) r = Some a'" "length a' = n"
    by auto
  from r(1) obtain m where m: "py_max r = Some m"
    by (cases r) auto
  show ?thesis
    using k m a assms(2)
    by (simp add: solve_and_record_def solve_def track_residual_def store_residual_def
        shape_ok_def)
qed

lemma inner_iteration_total:
  assumes "kernel_succeeds n kern" "shape_ok n s"
  shows "\<exists>t. inner_iteration kern s = Inr t \<and> shape_ok n t"
proof -
  have 1: "shape_ok n u \<Longrightarrow> \<exists>t. assign (\<lambda>s. s\<lparr>residual := 0\<rparr>) u = Inr t \<and> shape_ok n t" for u
    by (simp add: assign_def shape_ok_def)
  have 2: "shape_ok n u \<Longrightarrow> \<exists>t. plot v u = Inr t \<and> shape_ok n t" for u v
    by (simp add: plot_def shape_ok_def)
  note 3 = solve_and_record_total [OF assms(1)]
  show ?thesis
    unfolding inner_iteration_blocks
    by (rule seq_total [where I = "shape_ok n"]) (use assms(2) 1 2 3 in simp_all)
qed

lemma demo_kernel_succeeds: "kernel_succeeds 2 demo_kernel"
  by (simp add: kernel_succeeds_def demo_kernel_def)

lemma demo_store_shape: "shape_ok 2 demo_store"
  by (simp add: shape_ok_def demo_store_def)

lemma demo_iteration_residual:
  "residual (final_store (inner_iteration demo_kernel demo_store)) = 12"
  by (simp add: inner_iteration_def demo_kernel_def demo_store_def CellVariable_def final_store_def
      solve_def track_residual_def store_residual_def assign_def plot_def for_each_def
      phase_call_def potential_call_def component_call_def substitutionals_def interstitials_def
      assign_slice_def)

lemma solve_calls_append: "solve_calls (a @ b) = solve_calls a @ solve_calls b"
  by (induction a rule: solve_calls.induct) simp_all

lemma solves_of_append: "solves_of f (a @ b) = solves_of f a + solves_of f b"
  by (simp add: solves_of_def solve_calls_append)

lemma solve_calls_map_Solve: "solve_calls (map (\<lambda>f. Solve (g f)) xs) = map g xs"
  by (induction xs) simp_all

lemma update_pass:
  "for_each call_updateOld all_fields s =
     Inr (s\<lparr>vars := (\<lambda>f. updateOld (vars s f)), trace := trace s @ map UpdateOld all_fields\<rparr>)"
proof -
  have "(vars s)(Phase := updateOld (vars s Phase), Potential := updateOld (vars s Potential),
      SO4 := updateOld (vars s SO4), Cu := updateOld (vars s Cu),
      Electron := updateOld (vars s Electron)) = (\<lambda>f. updateOld (vars s f))"
    (is "?l = ?r")
  proof (rule ext)
    fix f show "?l f = ?r f"
      by (cases f) simp_all
  qed
  then show ?thesis
    by (simp add: for_each_def all_fields_def substitutionals_def interstitials_def
        call_updateOld_def)
qed


lemma solve_and_record_elapsed:
  "solve_and_record kern c s = Inr t \<Longrightarrow> elapsed t = elapsed s"
  using solve_and_record_Inr by blast

lemma inner_iteration_counts:
  assumes "inner_iteration kern s = Inr s'"
  shows "solves_of f (trace s') = solves_of f (trace s) + 1"
    and "count_list (trace s') (Plot ResidualViewer)
         = count_list (trace s) (Plot ResidualViewer) + 1"
    and "elapsed s' = elapsed s"
proof -
  have "solves_of f (map (\<lambda>f. Solve (call_for f)) all_fields) = 1"
    by (cases f)
      (simp_all add: solves_of_def solve_calls_map_Solve all_fields_def substitutionals_def
        interstitials_def call_for_owner)
  moreover have "solves_of f [Plot ResidualViewer] = 0"
    by (simp add: solves_of_def)
  moreover have "solves_of f (trace s') = solves_of f (trace s)
      + (solves_of f (map (\<lambda>f. Solve (call_for f)) all_fields)
         + solves_of f [Plot ResidualViewer])"
    unfolding inner_iteration_trace [OF assms] solves_of_append ..
  ultimately show "solves_of f (trace s') = solves_of f (trace s) + 1"
    by linarith
  show "count_list (trace s') (Plot ResidualViewer)
         = count_list (trace s) (Plot ResidualViewer) + 1"
    by (simp add: inner_iteration_trace [OF assms] all_fields_def substitutionals_def
        interstitials_def)
  from assms obtain s1 s2 s3 s4 s5 where
    b: "solve_and_record kern (call_for Phase) (s\<lparr>residual := 0\<rparr>) = Inr s1"
    "solve_and_record kern (call_for Potential) s1 = Inr s2"
    "solve_and_record kern (call_for SO4) s2 = Inr s3"
    "solve_and_record kern (call_for Cu) s3 = Inr s4"
    "solve_and_record kern (call_for Electron) s4 = Inr s5"
    and fin: "s' = s5\<lparr>trace := trace s5 @ [Plot ResidualViewer]\<rparr>"
    by (rule inner_iteration_chain)
  have "elapsed s1 = elapsed s" "elapsed s2 = elapsed s1" "elapsed s3 = elapsed s2"
    "elapsed s4 = elapsed s3" "elapsed s5 = elapsed s4"
    using b by (simp_all add: solve_and_record_elapsed)
  with fin show "elapsed s' = elapsed s"
    by simp
qed

lemma for_range_Inr_count:
  fixes m :: "store \<Rightarrow> nat"
  assumes "\<And>s t. body s = Inr t \<Longrightarrow> m t = m s + k"
    and "for_range n body s = Inr s'"
  shows "m s' = m s + n * k"
  using assms(2)
proof (induction n arbitrary: s)
  case 0
  then show ?case by (simp add: for_range_0)
next
  case (Suc n)
  from Suc.prems obtain t where t: "body s = Inr t" "for_range n body t = Inr s'"
    by (auto simp: for_range_Suc split: sum.splits)
  from assms(1) [OF t(1)] Suc.IH [OF t(2)] show ?case
    by simp
qed

lemma for_range_Inr_real:
  fixes m :: "store \<Rightarrow> real"
  assumes "\<And>s t. body s = Inr t \<Longrightarrow> m t = m s + k"
    and "for_range n body s = Inr s'"
  shows "m s' = m s + real n * k"
  using assms(2)
proof (induction n arbitrary: s)
  case 0
  then show ?case by (simp add: for_range_0)
next
  case (Suc n)
  from Suc.prems obtain t where t: "body s = Inr t" "for_range n body t = Inr s'"
    by (auto simp: for_range_Suc split: sum.splits)
  from assms(1) [OF t(1)] Suc.IH [OF t(2)] show ?case
    by (simp add: algebra_simps)
qed

text \<open>What the statements after the inner loop leave behind.\<close>

lemma outer_step_Inr:
  assumes "outer_step is_main kern s = Inr s'"
  obtains s0 t where
    "for_each call_updateOld all_fields s = Inr s0"
    "for_range 100 (inner_iteration kern) s0 = Inr t"
    "vars s' = vars t" "eq_residual s' = eq_residual t" "res_var s' = res_var t"
    "residual s' = residual t" "elapsed s' = elapsed t + dt"
    "trace s' = trace t @ (if is_main
        then [Plot PhaseViewer, Plot ConcViewer, Plot PotentialViewer,
              Print (elapsed t + dt) (residual t)]
        else [])"
proof -
  from assms obtain s0 t where
    1: "for_each call_updateOld all_fields s = Inr s0" and
    2: "for_range 100 (inner_iteration kern) s0 = Inr t" and
    3: "(if is_main
         then seq [plot PhaseViewer, plot ConcViewer, plot PotentialViewer, print_status]
         else seq []) (t\<lparr>elapsed := elapsed t + dt\<rparr>) = Inr s'"
    unfolding outer_step_def
    by (auto simp: seq_Cons_Inr seq_Nil_Inr assign_Inr simp del: seq.simps)
  from 3 have "s' = (if is_main
      then t\<lparr>elapsed := elapsed t + dt,
             trace := trace t @ [Plot PhaseViewer, Plot ConcViewer, Plot PotentialViewer,
              Print (elapsed t + dt) (residual t)]\<rparr>
      else t\<lparr>elapsed := elapsed t + dt\<rparr>)"
    by (auto simp: plot_def print_status_def split: if_splits)
  with 1 2 that show thesis
    by (cases is_main) simp_all
qed

lemma outer_step_counts:
  assumes "outer_step is_main kern s = Inr s'"
  shows "solves_of f (trace s') = solves_of f (trace s) + 100"
    and "count_list (trace s') (Plot ResidualViewer)
         = count_list (trace s) (Plot ResidualViewer) + 100"
    and "elapsed s' = elapsed s + dt"
proof -
  from assms obtain s0 t where
    1: "for_each call_updateOld all_fields s = Inr s0" and
    2: "for_range 100 (inner_iteration kern) s0 = Inr t" and
    3: "elapsed s' = elapsed t + dt" and
    4: "trace s' = trace t @ (if is_main
        then [Plot PhaseViewer, Plot ConcViewer, Plot PotentialViewer,
              Print (elapsed t + dt) (residual t)]
        else [])"
    by (rule outer_step_Inr)
  from 1 have s0: "trace s0 = trace s @ map UpdateOld all_fields" "elapsed s0 = elapsed s"
    by (auto simp: update_pass)
  have u: "solves_of f (map UpdateOld xs) = 0" for xs
    by (induction xs) (simp_all add: solves_of_def)
  have "solves_of f (trace t) = solves_of f (trace s0) + 100 * 1"
    by (rule for_range_Inr_count [OF _ 2]) (rule inner_iteration_counts)
  then show "solves_of f (trace s') = solves_of f (trace s) + 100"
    by (simp add: 4 s0 solves_of_append u) (simp add: solves_of_def)
  have "count_list (trace t) (Plot ResidualViewer)
      = count_list (trace s0) (Plot ResidualViewer) + 100 * 1"
    by (rule for_range_Inr_count [OF _ 2]) (rule inner_iteration_counts)
  moreover have "count_list (map UpdateOld xs) (Plot ResidualViewer) = 0" for xs
    by (induction xs) simp_all
  ultimately show "count_list (trace s') (Plot ResidualViewer)
         = count_list (trace s) (Plot ResidualViewer) + 100"
    by (simp add: 4 s0)
  have "elapsed t = elapsed s0 + real 100 * 0"
    by (rule for_range_Inr_real [OF _ 2]) (simp add: inner_iteration_counts)
  then show "elapsed s' = elapsed s + dt"
    by (simp add: 3 s0)
qed

lemma solve_loop_Inr:
  assumes "solve_loop is_main kern s = Inr s'"
  shows "for_range 500 (outer_step is_main kern) (s\<lparr>elapsed := 0\<rparr>) = Inr s'"
  using assms unfolding solve_loop_def
  by (simp add: seq_Cons_Inr seq_Nil_Inr assign_Inr del: seq.simps)

subsection \<open>Runs that complete\<close>

lemma for_range_total:
  assumes "\<And>u. I u \<Longrightarrow> \<exists>t. body u = Inr t \<and> I t" and "I s"
  shows "\<exists>t. for_range n body s = Inr t \<and> I t"
  unfolding for_range_def
  by (rule seq_total) (use assms in auto)

lemma for_range_snoc_Inr:
  "for_range (Suc n) body s = Inr w \<longleftrightarrow> (\<exists>t. for_range n body s = Inr t \<and> body t = Inr w)"
  by (simp add: for_range_snoc split: sum.splits)

lemma outer_step_total:
  assumes "kernel_succeeds n kern" "shape_ok n s"
  shows "\<exists>t. outer_step is_main kern s = Inr t \<and> shape_ok n t"
proof -
  have 1: "shape_ok n u \<Longrightarrow> \<exists>t. for_each call_updateOld all_fields u = Inr t \<and> shape_ok n t"
    for u
    by (simp add: update_pass shape_ok_def)
  have 2: "shape_ok n u \<Longrightarrow> \<exists>t. for_range 100 (inner_iteration kern) u = Inr t \<and> shape_ok n t"
    for u
    by (rule for_range_total [where I = "shape_ok n"])
      (simp_all add: inner_iteration_total [OF assms(1)])
  have 3: "shape_ok n u \<Longrightarrow>
      \<exists>t. assign (\<lambda>s. s\<lparr>elapsed := elapsed s + dt\<rparr>) u = Inr t \<and> shape_ok n t" for u
    by (simp add: assign_def shape_ok_def)
  have 4: "shape_ok n u \<Longrightarrow>
      \<exists>t. (if is_main
           then seq [plot PhaseViewer, plot ConcViewer, plot PotentialViewer, print_status]
           else seq []) u = Inr t \<and> shape_ok n t" for u
    by (simp add: plot_def print_status_def shape_ok_def)
  show ?thesis
    unfolding outer_step_def
    by (rule seq_total [where I = "shape_ok n"]) (use assms(2) 1 2 3 4 in simp_all)
qed

lemma solve_loop_total:
  assumes "kernel_succeeds n kern" "shape_ok n s"
  shows "\<exists>t. solve_loop is_main kern s = Inr t"
proof -
  have "shape_ok n (s\<lparr>elapsed := 0\<rparr>)"
    using assms(2) by (simp add: shape_ok_def)
  moreover have "shape_ok n u \<Longrightarrow> \<exists>t. outer_step is_main kern u = Inr t \<and> shape_ok n t"
    for u
    by (rule outer_step_total [OF assms(1)])
  ultimately obtain t where
    "for_range 500 (outer_step is_main kern) (s\<lparr>elapsed := 0\<rparr>) = Inr t"
    using for_range_total [of "shape_ok n" "outer_step is_main kern" "s\<lparr>elapsed := 0\<rparr>" 500]
    by blast
  then show ?thesis
    by (simp add: solve_loop_def assign_def)
qed

text \<open>The outer step after its pass of snapshots.\<close>

lemma outer_step_after_pass:
  "outer_step is_main kern s =
      seq [for_range 100 (inner_iteration kern),
           assign (\<lambda>s. s\<lparr>elapsed := elapsed s + dt\<rparr>),
           if is_main
           then seq [plot PhaseViewer, plot ConcViewer, plot PotentialViewer, print_status]
           else seq []]
        (s\<lparr>vars := (\<lambda>f. updateOld (vars s f)), trace := trace s @ map UpdateOld all_fields\<rparr>)"
  unfolding outer_step_def
  by (subst seq.simps(2)) (simp only: update_pass sum.case)

subsection \<open>The snapshots\<close>

lemma no_snapshot_refl: "no_snapshot s s"
  by (simp add: no_snapshot_def)

lemma no_snapshot_trans:
  assumes "no_snapshot a b" "no_snapshot b c"
  shows "no_snapshot a c"
proof -
  from assms obtain e1 e2 where
    "trace b = trace a @ e1" "\<forall>f. UpdateOld f \<notin> set e1"
    "trace c = trace b @ e2" "\<forall>f. UpdateOld f \<notin> set e2"
    unfolding no_snapshot_def by blast
  then have "trace c = trace a @ (e1 @ e2) \<and> (\<forall>f. UpdateOld f \<notin> set (e1 @ e2))"
    by simp
  with assms show ?thesis
    unfolding no_snapshot_def by metis
qed

lemma seq_no_snapshot:
  assumes "\<And>c u. c \<in> set cs \<Longrightarrow> no_snapshot u (final_store (c u))"
  shows "no_snapshot s (final_store (seq cs s))"
  using assms
proof (induction cs arbitrary: s)
  case Nil
  then show ?case by (simp add: final_store_def no_snapshot_refl)
next
  case (Cons c cs)
  have step: "no_snapshot s (final_store (c s))"
    by (rule Cons.prems) simp
  show ?case
  proof (cases "c s")
    case (Inl x)
    with step show ?thesis by simp
  next
    case (Inr t)
    with step have "no_snapshot s t"
      by (simp add: final_store_def)
    moreover have "no_snapshot t (final_store (seq cs t))"
      by (rule Cons.IH) (rule Cons.prems, simp)
    ultimately show ?thesis
      using Inr by (simp add: no_snapshot_trans)
  qed
qed

lemma solve_no_snapshot: "no_snapshot s (final_store (solve kern c s))"
  by (simp add: solve_def no_snapshot_def final_store_def Let_def split: option.splits)

lemma track_residual_no_snapshot: "no_snapshot s (final_store (track_residual f s))"
  by (simp add: track_residual_def no_snapshot_def final_store_def split: option.splits)

lemma store_residual_no_snapshot: "no_snapshot s (final_store (store_residual f s))"
  by (simp add: store_residual_def no_snapshot_def final_store_def split: option.splits)

lemma plot_no_snapshot: "no_snapshot s (final_store (plot v s))"
  by (simp add: plot_def no_snapshot_def final_store_def)

lemma print_status_no_snapshot: "no_snapshot s (final_store (print_status s))"
  by (simp add: print_status_def no_snapshot_def final_store_def)

lemma solve_and_record_no_snapshot: "no_snapshot s (final_store (solve_and_record kern c s))"
  unfolding solve_and_record_def
  by (rule seq_no_snapshot)
    (auto simp: solve_no_snapshot track_residual_no_snapshot store_residual_no_snapshot)

lemma inner_iteration_no_snapshot: "no_snapshot s (final_store (inner_iteration kern s))"
  unfolding inner_iteration_blocks
proof (rule seq_no_snapshot)
  fix c u
  assume "c \<in> set [assign (\<lambda>s. s\<lparr>residual := 0\<rparr>),
          solve_and_record kern phase_call,
          solve_and_record kern potential_call,
          solve_and_record kern (component_call SO4),
          solve_and_record kern (component_call Cu),
          solve_and_record kern (component_call Electron),
          plot ResidualViewer]"
  then consider "c = assign (\<lambda>s. s\<lparr>residual := 0\<rparr>)"
    | k where "c = solve_and_record kern k"
    | "c = plot ResidualViewer"
    by auto
  then show "no_snapshot u (final_store (c u))"
  proof cases
    case 1
    then show ?thesis
      by (simp add: assign_def no_snapshot_def final_store_def)
  next
    case 2
    then show ?thesis
      by (simp add: solve_and_record_no_snapshot)
  next
    case 3
    then show ?thesis
      by (simp add: plot_no_snapshot)
  qed
qed

lemma for_range_no_snapshot:
  assumes "\<And>u. no_snapshot u (final_store (body u))"
  shows "no_snapshot s (final_store (for_range n body s))"
  unfolding for_range_def
  by (rule seq_no_snapshot) (use assms in auto)

lemma after_snapshots_no_snapshot:
  "no_snapshot s
     (final_store
       (seq [for_range 100 (inner_iteration kern),
             assign (\<lambda>s. s\<lparr>elapsed := elapsed s + dt\<rparr>),
             if is_main
             then seq [plot PhaseViewer, plot ConcViewer, plot PotentialViewer, print_status]
             else seq []] s))"
proof (rule seq_no_snapshot)
  fix c u
  assume "c \<in> set [for_range 100 (inner_iteration kern),
             assign (\<lambda>s. s\<lparr>elapsed := elapsed s + dt\<rparr>),
             if is_main
             then seq [plot PhaseViewer, plot ConcViewer, plot PotentialViewer, print_status]
             else seq []]"
  then consider "c = for_range 100 (inner_iteration kern)"
    | "c = assign (\<lambda>s. s\<lparr>elapsed := elapsed s + dt\<rparr>)"
    | "c = seq [plot PhaseViewer, plot ConcViewer, plot PotentialViewer, print_status]"
    | "c = seq []"
    by (auto split: if_splits)
  then show "no_snapshot u (final_store (c u))"
  proof cases
    case 1
    then show ?thesis
      by (simp add: for_range_no_snapshot inner_iteration_no_snapshot)
  next
    case 2
    then show ?thesis
      by (simp add: assign_def no_snapshot_def final_store_def)
  next
    case 3
    show ?thesis
      unfolding 3
      by (rule seq_no_snapshot) (auto simp: plot_no_snapshot print_status_no_snapshot)
  next
    case 4
    then show ?thesis
      by (simp add: no_snapshot_refl final_store_def)
  qed
qed

lemma outer_step_snapshots:
  "no_snapshot
     (s\<lparr>vars := (\<lambda>f. updateOld (vars s f)), trace := trace s @ map UpdateOld all_fields\<rparr>)
     (final_store (outer_step is_main kern s))"
  by (simp only: outer_step_after_pass after_snapshots_no_snapshot)

lemma inner_iteration_res_var:
  assumes "inner_iteration kern s = Inr s'"
  shows "assign_slice (res_var s f) (eq_residual s' f) = Some (res_var s' f)"
proof -
  from assms obtain s1 s2 s3 s4 s5 where
    b1: "solve_and_record kern (call_for Phase) (s\<lparr>residual := 0\<rparr>) = Inr s1" and
    b2: "solve_and_record kern (call_for Potential) s1 = Inr s2" and
    b3: "solve_and_record kern (call_for SO4) s2 = Inr s3" and
    b4: "solve_and_record kern (call_for Cu) s3 = Inr s4" and
    b5: "solve_and_record kern (call_for Electron) s4 = Inr s5" and
    fin: "s' = s5\<lparr>trace := trace s5 @ [Plot ResidualViewer]\<rparr>"
    by (rule inner_iteration_chain)
  from solve_and_record_Inr [OF b1] obtain r1 where
    u1: "eq_residual s1 = (eq_residual s)(Phase := r1)"
        "assign_slice (res_var s Phase) r1 = Some (res_var s1 Phase)"
        "\<forall>g. g \<noteq> Phase \<longrightarrow> res_var s1 g = res_var s g"
    by (auto simp: call_for_owner)
  from solve_and_record_Inr [OF b2] obtain r2 where
    u2: "eq_residual s2 = (eq_residual s1)(Potential := r2)"
        "assign_slice (res_var s1 Potential) r2 = Some (res_var s2 Potential)"
        "\<forall>g. g \<noteq> Potential \<longrightarrow> res_var s2 g = res_var s1 g"
    by (auto simp: call_for_owner)
  from solve_and_record_Inr [OF b3] obtain r3 where
    u3: "eq_residual s3 = (eq_residual s2)(SO4 := r3)"
        "assign_slice (res_var s2 SO4) r3 = Some (res_var s3 SO4)"
        "\<forall>g. g \<noteq> SO4 \<longrightarrow> res_var s3 g = res_var s2 g"
    by (auto simp: call_for_owner)
  from solve_and_record_Inr [OF b4] obtain r4 where
    u4: "eq_residual s4 = (eq_residual s3)(Cu := r4)"
        "assign_slice (res_var s3 Cu) r4 = Some (res_var s4 Cu)"
        "\<forall>g. g \<noteq> Cu \<longrightarrow> res_var s4 g = res_var s3 g"
    by (auto simp: call_for_owner)
  from solve_and_record_Inr [OF b5] obtain r5 where
    u5: "eq_residual s5 = (eq_residual s4)(Electron := r5)"
        "assign_slice (res_var s4 Electron) r5 = Some (res_var s5 Electron)"
        "\<forall>g. g \<noteq> Electron \<longrightarrow> res_var s5 g = res_var s4 g"
    by (auto simp: call_for_owner)
  show ?thesis
  proof (cases f)
    case Phase
    have "res_var s' Phase = res_var s1 Phase"
      by (simp add: fin u2(3) u3(3) u4(3) u5(3))
    moreover have "eq_residual s' Phase = r1"
      by (simp add: fin u1(1) u2(1) u3(1) u4(1) u5(1))
    ultimately show ?thesis
      using u1(2) by (simp add: Phase)
  next
    case Potential
    have "res_var s' Potential = res_var s2 Potential" "res_var s1 Potential = res_var s Potential"
      by (simp_all add: fin u1(3) u3(3) u4(3) u5(3))
    moreover have "eq_residual s' Potential = r2"
      by (simp add: fin u2(1) u3(1) u4(1) u5(1))
    ultimately show ?thesis
      using u2(2) by (simp add: Potential)
  next
    case SO4
    have "res_var s' SO4 = res_var s3 SO4" "res_var s2 SO4 = res_var s SO4"
      by (simp_all add: fin u1(3) u2(3) u4(3) u5(3))
    moreover have "eq_residual s' SO4 = r3"
      by (simp add: fin u3(1) u4(1) u5(1))
    ultimately show ?thesis
      using u3(2) by (simp add: SO4)
  next
    case Cu
    have "res_var s' Cu = res_var s4 Cu" "res_var s3 Cu = res_var s Cu"
      by (simp_all add: fin u1(3) u2(3) u3(3) u5(3))
    moreover have "eq_residual s' Cu = r4"
      by (simp add: fin u4(1) u5(1))
    ultimately show ?thesis
      using u4(2) by (simp add: Cu)
  next
    case Electron
    have "res_var s' Electron = res_var s5 Electron" "res_var s4 Electron = res_var s Electron"
      by (simp_all add: fin u1(3) u2(3) u3(3) u4(3))
    moreover have "eq_residual s' Electron = r5"
      by (simp add: fin u5(1))
    ultimately show ?thesis
      using u5(2) by (simp add: Electron)
  qed
qed

lemma iteration_calls:
  "solve_calls (map (\<lambda>f. Solve (call_for f)) all_fields @ [Plot ResidualViewer])
     = map call_for all_fields"
  by (simp add: solve_calls_append solve_calls_map_Solve)

lemma solve_frame:
  assumes "solve kern c t = Inr u" "g \<noteq> var c"
  shows "vars u g = vars t g"
  using assms by (auto simp: solve_def Let_def split: option.splits)

lemma demo_iteration_trace:
  "trace (final_store (inner_iteration demo_kernel demo_store))
     = map (\<lambda>f. Solve (call_for f)) all_fields @ [Plot ResidualViewer]"
proof -
  from inner_iteration_total [OF demo_kernel_succeeds demo_store_shape]
  obtain s' where s': "inner_iteration demo_kernel demo_store = Inr s'"
    by blast
  from inner_iteration_trace [OF s'] s' show ?thesis
    by (simp add: final_store_def demo_store_def)
qed

subsection \<open>Where a run stops\<close>

lemma seq_Cons_Inl:
  "seq (c # cs) s = Inl x \<longleftrightarrow> c s = Inl x \<or> (\<exists>t. c s = Inr t \<and> seq cs t = Inl x)"
  by (cases "c s") auto

lemma seq_map_stops:
  assumes "f \<in> set xs"
    and "seq (map B (takeWhile (\<lambda>g. g \<noteq> f) xs)) s = Inr u"
    and "B f u = Inl x"
  shows "seq (map B xs) s = Inl x"
  using assms
proof (induction xs arbitrary: s)
  case Nil
  then show ?case by simp
next
  case (Cons y ys)
  show ?case
  proof (cases "y = f")
    case True
    with Cons.prems show ?thesis
      by simp
  next
    case False
    with Cons.prems obtain t where
      t: "B y s = Inr t" "seq (map B (takeWhile (\<lambda>g. g \<noteq> f) ys)) t = Inr u"
      by (auto simp: seq_Cons_Inr simp del: seq.simps)
    from False Cons.prems(1) have "f \<in> set ys"
      by simp
    from Cons.IH [OF this t(2) Cons.prems(3)] t(1) show ?thesis
      by simp
  qed
qed

lemma seq_map_stopped:
  assumes "seq (map B xs) s = Inl x" and "distinct xs"
  shows "\<exists>f u. f \<in> set xs \<and> seq (map B (takeWhile (\<lambda>g. g \<noteq> f) xs)) s = Inr u \<and> B f u = Inl x"
  using assms
proof (induction xs arbitrary: s)
  case Nil
  then show ?case by simp
next
  case (Cons y ys)
  show ?case
  proof (cases "B y s")
    case (Inl z)
    with Cons.prems have "B y s = Inl x"
      by simp
    then have "y \<in> set (y # ys)
        \<and> seq (map B (takeWhile (\<lambda>g. g \<noteq> y) (y # ys))) s = Inr s \<and> B y s = Inl x"
      by simp
    then show ?thesis
      by blast
  next
    case (Inr t)
    with Cons.prems(1) have "seq (map B ys) t = Inl x"
      by simp
    moreover from Cons.prems(2) have "distinct ys"
      by simp
    ultimately obtain f u where
      f: "f \<in> set ys" "seq (map B (takeWhile (\<lambda>g. g \<noteq> f) ys)) t = Inr u" "B f u = Inl x"
      using Cons.IH by blast
    from f(1) Cons.prems(2) have "f \<noteq> y"
      by auto
    with Inr f have "f \<in> set (y # ys)
        \<and> seq (map B (takeWhile (\<lambda>g. g \<noteq> f) (y # ys))) s = Inr u \<and> B f u = Inl x"
      by simp
    then show ?thesis
      by blast
  qed
qed

lemma for_range_Inl_iff:
  "for_range n body s = Inl x \<longleftrightarrow>
     (\<exists>k<n. \<exists>u. for_range k body s = Inr u \<and> body u = Inl x)"
proof (induction n)
  case 0
  then show ?case by (simp add: for_range_0)
next
  case (Suc n)
  have "for_range (Suc n) body s = Inl x \<longleftrightarrow>
      for_range n body s = Inl x \<or> (\<exists>u. for_range n body s = Inr u \<and> body u = Inl x)"
    by (simp add: for_range_snoc split: sum.splits)
  also have "\<dots> \<longleftrightarrow> (\<exists>k<n. \<exists>u. for_range k body s = Inr u \<and> body u = Inl x)
      \<or> (\<exists>u. for_range n body s = Inr u \<and> body u = Inl x)"
    by (simp only: Suc.IH)
  also have "\<dots> \<longleftrightarrow> (\<exists>k<Suc n. \<exists>u. for_range k body s = Inr u \<and> body u = Inl x)"
    by (auto simp: less_Suc_eq)
  finally show ?case .
qed

lemma solve_and_record_SolveFailure:
  "solve_and_record kern c u = Inl (SolveFailure, s') \<longleftrightarrow>
     kern c (vars u) = None \<and> s' = u\<lparr>trace := trace u @ [Solve c]\<rparr>"
  by (auto simp: solve_and_record_def solve_def track_residual_def store_residual_def Let_def
      split: option.splits prod.splits)

lemma inner_iteration_as_map:
  "inner_iteration kern =
     seq (assign (\<lambda>s. s\<lparr>residual := 0\<rparr>)
          # map (\<lambda>g. solve_and_record kern (call_for g)) all_fields
          @ [plot ResidualViewer])"
  by (simp add: inner_iteration_blocks all_fields_def substitutionals_def interstitials_def
      call_for_simps)

lemma all_fields_UNIV: "f \<in> set all_fields"
  by (cases f) (simp_all add: all_fields_def substitutionals_def interstitials_def)

lemma all_fields_distinct: "distinct all_fields"
  by (simp add: all_fields_def substitutionals_def interstitials_def)

lemma inner_iteration_Inl_iff:
  "inner_iteration kern c = Inl x \<longleftrightarrow>
     (\<exists>f u. seq (map (\<lambda>g. solve_and_record kern (call_for g))
                   (takeWhile (\<lambda>g. g \<noteq> f) all_fields)) (c\<lparr>residual := 0\<rparr>) = Inr u
           \<and> solve_and_record kern (call_for f) u = Inl x)"
proof -
  let ?B = "\<lambda>g. solve_and_record kern (call_for g)"
  have "inner_iteration kern c = Inl x \<longleftrightarrow> seq (map ?B all_fields) (c\<lparr>residual := 0\<rparr>) = Inl x"
    unfolding inner_iteration_as_map
    by (simp add: seq_append assign_def plot_def split: sum.splits)
  also have "\<dots> \<longleftrightarrow> (\<exists>f u. seq (map ?B (takeWhile (\<lambda>g. g \<noteq> f) all_fields))
        (c\<lparr>residual := 0\<rparr>) = Inr u \<and> ?B f u = Inl x)"
    using seq_map_stopped [of ?B all_fields "c\<lparr>residual := 0\<rparr>" x, OF _ all_fields_distinct]
      seq_map_stops [of _ all_fields ?B "c\<lparr>residual := 0\<rparr>" _ x] all_fields_UNIV
    by blast
  finally show ?thesis .
qed

lemma outer_step_Inl_iff:
  "outer_step is_main kern a = Inl x \<longleftrightarrow>
     (\<exists>b. for_each call_updateOld all_fields a = Inr b
         \<and> for_range 100 (inner_iteration kern) b = Inl x)"
proof -
  have "seq [for_range 100 (inner_iteration kern),
           assign (\<lambda>s. s\<lparr>elapsed := elapsed s + dt\<rparr>),
           if is_main
           then seq [plot PhaseViewer, plot ConcViewer, plot PotentialViewer, print_status]
           else seq []] b = Inl x
      \<longleftrightarrow> for_range 100 (inner_iteration kern) b = Inl x" for b
    by (cases is_main) (simp_all add: assign_def plot_def print_status_def split: sum.splits)
  then show ?thesis
    unfolding outer_step_after_pass by (simp add: update_pass)
qed

lemma solve_loop_Inl_iff:
  "solve_loop is_main kern s = Inl x \<longleftrightarrow>
     for_range 500 (outer_step is_main kern) (s\<lparr>elapsed := 0\<rparr>) = Inl x"
  by (simp add: solve_loop_def assign_def split: sum.splits)

subsection \<open>Runs from stores that hold the same fields\<close>

lemma same_outcome_Inr: "same_outcome (Inr a) (Inr b) \<longleftrightarrow> same_fields a b"
  by (simp add: same_outcome_def outcome_def final_store_def)

lemma same_outcome_bind:
  assumes "same_outcome r1 r2"
    and "\<And>a b. same_fields a b \<Longrightarrow> same_outcome (f a) (f b)"
  shows "same_outcome (case r1 of Inl x \<Rightarrow> Inl x | Inr t \<Rightarrow> f t)
                      (case r2 of Inl x \<Rightarrow> Inl x | Inr t \<Rightarrow> f t)"
proof (cases r1)
  case l1: (Inl x)
  with assms(1) obtain y where "r2 = Inl y"
    by (cases r2) (auto simp: same_outcome_def outcome_def split: prod.splits)
  with l1 assms(1) show ?thesis
    by simp
next
  case r1: (Inr a)
  with assms(1) obtain b where b: "r2 = Inr b"
    by (cases r2) (auto simp: same_outcome_def outcome_def)
  with r1 assms(1) have "same_fields a b"
    by (simp add: same_outcome_Inr)
  with r1 b assms(2) show ?thesis
    by simp
qed

lemma seq_same:
  assumes "\<And>c u v. c \<in> set cs \<Longrightarrow> same_fields u v \<Longrightarrow> same_outcome (c u) (c v)"
    and "same_fields a b"
  shows "same_outcome (seq cs a) (seq cs b)"
  using assms
proof (induction cs arbitrary: a b)
  case Nil
  then show ?case by (simp add: same_outcome_Inr)
next
  case (Cons c cs)
  have 1: "same_outcome (c a) (c b)"
    using Cons.prems(1) [of c a b] Cons.prems(2) by simp
  have 2: "same_fields u v \<Longrightarrow> same_outcome (seq cs u) (seq cs v)" for u v
    using Cons.IH [of u v] Cons.prems(1) by simp
  from same_outcome_bind [OF 1, of "seq cs"] 2 show ?case
    by simp
qed

lemma solve_and_record_same:
  assumes "same_fields a b"
  shows "same_outcome (solve_and_record kern c a) (solve_and_record kern c b)"
proof -
  from assms have v: "vars a = vars b"
    and l: "length (res_var a (equation c)) = length (res_var b (equation c))"
    and ls: "\<forall>f. length (res_var a f) = length (res_var b f)"
    by (simp_all add: same_fields_def)
  show ?thesis
  proof (cases "kern c (vars b)")
    case None
    with v show ?thesis
      by (simp add: solve_and_record_def solve_def same_outcome_def outcome_def
          final_store_def same_fields_def ls)
  next
    case (Some p)
    obtain w r where p: "p = (w, r)"
      by (cases p)
    show ?thesis
    proof (cases "py_max r")
      case None
      with Some p v show ?thesis
        by (simp add: solve_and_record_def solve_def track_residual_def same_outcome_def
            outcome_def final_store_def same_fields_def ls)
    next
      case m: (Some m)
      have "(assign_slice (res_var a (equation c)) r = None
             \<and> assign_slice (res_var b (equation c)) r = None)
          \<or> (\<exists>x y. assign_slice (res_var a (equation c)) r = Some x
             \<and> assign_slice (res_var b (equation c)) r = Some y \<and> length x = length y)"
        using l by (auto simp: assign_slice_def split: list.splits)
      then show ?thesis
      proof (elim disjE conjE exE)
        assume "assign_slice (res_var a (equation c)) r = None"
          "assign_slice (res_var b (equation c)) r = None"
        with Some p v m show ?thesis
          by (simp add: solve_and_record_def solve_def track_residual_def store_residual_def
              same_outcome_def outcome_def final_store_def same_fields_def ls)
      next
        fix x y
        assume "assign_slice (res_var a (equation c)) r = Some x"
          "assign_slice (res_var b (equation c)) r = Some y" "length x = length y"
        with Some p v m show ?thesis
          by (simp add: solve_and_record_def solve_def track_residual_def store_residual_def
              same_outcome_def outcome_def final_store_def same_fields_def ls)
      qed
    qed
  qed
qed

lemma inner_iteration_same:
  assumes "same_fields a b"
  shows "same_outcome (inner_iteration kern a) (inner_iteration kern b)"
  unfolding inner_iteration_blocks
proof (rule seq_same [OF _ assms])
  fix c u v
  assume "c \<in> set [assign (\<lambda>s. s\<lparr>residual := 0\<rparr>),
          solve_and_record kern phase_call,
          solve_and_record kern potential_call,
          solve_and_record kern (component_call SO4),
          solve_and_record kern (component_call Cu),
          solve_and_record kern (component_call Electron),
          plot ResidualViewer]"
    and uv: "same_fields u v"
  then consider "c = assign (\<lambda>s. s\<lparr>residual := 0\<rparr>)"
    | k where "c = solve_and_record kern k"
    | "c = plot ResidualViewer"
    by auto
  then show "same_outcome (c u) (c v)"
  proof cases
    case 1
    with uv show ?thesis
      by (simp add: assign_def same_outcome_Inr same_fields_def)
  next
    case 2
    with uv show ?thesis
      by (simp add: solve_and_record_same)
  next
    case 3
    with uv show ?thesis
      by (simp add: plot_def same_outcome_Inr same_fields_def)
  qed
qed

lemma for_range_same:
  assumes "\<And>u v. same_fields u v \<Longrightarrow> same_outcome (body u) (body v)"
    and "same_fields a b"
  shows "same_outcome (for_range n body a) (for_range n body b)"
  unfolding for_range_def
  by (rule seq_same [OF _ assms(2)]) (use assms(1) in auto)

lemma after_snapshots_same:
  assumes "same_fields a b"
  shows "same_outcome
     (seq [for_range 100 (inner_iteration kern),
           assign (\<lambda>s. s\<lparr>elapsed := elapsed s + dt\<rparr>),
           if is_main
           then seq [plot PhaseViewer, plot ConcViewer, plot PotentialViewer, print_status]
           else seq []] a)
     (seq [for_range 100 (inner_iteration kern),
           assign (\<lambda>s. s\<lparr>elapsed := elapsed s + dt\<rparr>),
           if is_main
           then seq [plot PhaseViewer, plot ConcViewer, plot PotentialViewer, print_status]
           else seq []] b)"
proof (rule seq_same [OF _ assms])
  fix c u v
  assume "c \<in> set [for_range 100 (inner_iteration kern),
           assign (\<lambda>s. s\<lparr>elapsed := elapsed s + dt\<rparr>),
           if is_main
           then seq [plot PhaseViewer, plot ConcViewer, plot PotentialViewer, print_status]
           else seq []]"
    and uv: "same_fields u v"
  then consider "c = for_range 100 (inner_iteration kern)"
    | "c = assign (\<lambda>s. s\<lparr>elapsed := elapsed s + dt\<rparr>)"
    | "c = seq [plot PhaseViewer, plot ConcViewer, plot PotentialViewer, print_status]"
    | "c = seq []"
    by (auto split: if_splits)
  then show "same_outcome (c u) (c v)"
  proof cases
    case 1
    with uv show ?thesis
      by (simp add: for_range_same inner_iteration_same)
  next
    case 2
    with uv show ?thesis
      by (simp add: assign_def same_outcome_Inr same_fields_def)
  next
    case 3
    with uv show ?thesis
      by (simp add: plot_def print_status_def same_outcome_Inr same_fields_def)
  next
    case 4
    with uv show ?thesis
      by (simp add: same_outcome_Inr)
  qed
qed

lemma outer_step_same_values:
  assumes "\<forall>f. val (vars a f) = val (vars b f)"
    and "\<forall>f. (old (vars a f) = None) = (old (vars b f) = None)"
    and "\<forall>f. length (res_var a f) = length (res_var b f)"
  shows "same_outcome (outer_step is_main kern a) (outer_step is_main kern b)"
proof -
  have "updateOld (vars a f) = updateOld (vars b f)" for f
  proof -
    from assms(1) have v: "val (vars a f) = val (vars b f)"
      by blast
    from assms(2) have e: "(old (vars a f) = None) = (old (vars b f) = None)"
      by blast
    show ?thesis
    proof (cases "old (vars a f)")
      case None
      with e have "old (vars b f) = None"
        by simp
      with None v show ?thesis
        by (simp add: updateOld_def cellvar.equality)
    next
      case (Some x)
      with e obtain y where "old (vars b f) = Some y"
        by (cases "old (vars b f)") auto
      with Some v show ?thesis
        by (simp add: updateOld_def cellvar.equality)
    qed
  qed
  then have "same_fields
      (a\<lparr>vars := (\<lambda>f. updateOld (vars a f)), trace := trace a @ map UpdateOld all_fields\<rparr>)
      (b\<lparr>vars := (\<lambda>f. updateOld (vars b f)), trace := trace b @ map UpdateOld all_fields\<rparr>)"
    using assms(3) by (simp add: same_fields_def)
  then show ?thesis
    unfolding outer_step_after_pass by (rule after_snapshots_same)
qed

lemma outer_step_same:
  assumes "same_fields a b"
  shows "same_outcome (outer_step is_main kern a) (outer_step is_main kern b)"
  using assms by (simp add: outer_step_same_values same_fields_def)

subsection \<open>A loop as the chain of its passes\<close>

lemma for_range_chain:
  assumes "for_range n body s = Inr t"
  shows "\<exists>\<sigma>. \<sigma> 0 = s \<and> \<sigma> n = t \<and> (\<forall>i<n. body (\<sigma> i) = Inr (\<sigma> (Suc i)))"
  using assms
proof (induction n arbitrary: t)
  case 0
  then have "t = s"
    by (simp add: for_range_0)
  then show ?case
    by (intro exI [of _ "\<lambda>i. s"]) simp
next
  case (Suc n)
  from Suc.prems obtain u where u: "for_range n body s = Inr u" "body u = Inr t"
    unfolding for_range_snoc_Inr by blast
  from Suc.IH [OF u(1)] obtain \<sigma> where
    \<sigma>: "\<sigma> 0 = s" "\<sigma> n = u" "\<forall>i<n. body (\<sigma> i) = Inr (\<sigma> (Suc i))"
    by blast
  let ?\<sigma> = "\<sigma>(Suc n := t)"
  have "?\<sigma> 0 = s" "?\<sigma> (Suc n) = t"
    using \<sigma>(1) by simp_all
  moreover have "body (?\<sigma> i) = Inr (?\<sigma> (Suc i))" if "i < Suc n" for i
  proof (cases "i = n")
    case True
    with \<sigma>(2) u(2) show ?thesis by simp
  next
    case False
    with that have "i < n" by simp
    with \<sigma>(3) show ?thesis by simp
  qed
  ultimately show ?case
    by blast
qed

lemma for_range_Inr_trace:
  assumes "\<And>s t. body s = Inr t \<Longrightarrow> trace t = trace s @ evs"
    and "for_range n body s = Inr s'"
  shows "trace s' = trace s @ concat (replicate n evs)"
  using assms(2)
proof (induction n arbitrary: s)
  case 0
  then show ?case by (simp add: for_range_0)
next
  case (Suc n)
  from Suc.prems obtain t where t: "body s = Inr t" "for_range n body t = Inr s'"
    by (auto simp: for_range_Suc split: sum.splits)
  from assms(1) [OF t(1)] Suc.IH [OF t(2)] show ?case
    by simp
qed

lemma outer_step_shape:
  assumes "outer_step is_main kern u = Inr u'"
  shows "\<exists>\<tau>. for_each call_updateOld all_fields u = Inr (\<tau> 0)
           \<and> (\<forall>j<100. inner_iteration kern (\<tau> j) = Inr (\<tau> (Suc j)))
           \<and> vars u' = vars (\<tau> 100) \<and> eq_residual u' = eq_residual (\<tau> 100)
           \<and> res_var u' = res_var (\<tau> 100) \<and> residual u' = residual (\<tau> 100)"
    and "trace u' = trace u @ map UpdateOld all_fields
           @ concat (replicate 100
               (map (\<lambda>f. Solve (call_for f)) all_fields @ [Plot ResidualViewer]))
           @ (if is_main
              then [Plot PhaseViewer, Plot ConcViewer, Plot PotentialViewer,
                    Print (elapsed u') (residual u')]
              else [])"
proof -
  from assms obtain s0 t where
    1: "for_each call_updateOld all_fields u = Inr s0" and
    2: "for_range 100 (inner_iteration kern) s0 = Inr t" and
    3: "vars u' = vars t" "eq_residual u' = eq_residual t" "res_var u' = res_var t"
       "residual u' = residual t" "elapsed u' = elapsed t + dt" and
    4: "trace u' = trace t @ (if is_main
        then [Plot PhaseViewer, Plot ConcViewer, Plot PotentialViewer,
              Print (elapsed t + dt) (residual t)]
        else [])"
    by (rule outer_step_Inr)
  from for_range_chain [OF 2] obtain \<tau> where
    \<tau>: "\<tau> 0 = s0" "\<tau> 100 = t" "\<forall>j<100. inner_iteration kern (\<tau> j) = Inr (\<tau> (Suc j))"
    by blast
  with 1 3 show "\<exists>\<tau>. for_each call_updateOld all_fields u = Inr (\<tau> 0)
           \<and> (\<forall>j<100. inner_iteration kern (\<tau> j) = Inr (\<tau> (Suc j)))
           \<and> vars u' = vars (\<tau> 100) \<and> eq_residual u' = eq_residual (\<tau> 100)
           \<and> res_var u' = res_var (\<tau> 100) \<and> residual u' = residual (\<tau> 100)"
    by metis
  from 1 have "trace s0 = trace u @ map UpdateOld all_fields"
    by (auto simp: update_pass)
  moreover have "trace t = trace s0 @ concat (replicate 100
      (map (\<lambda>f. Solve (call_for f)) all_fields @ [Plot ResidualViewer]))"
    by (rule for_range_Inr_trace [OF _ 2]) (rule inner_iteration_trace)
  ultimately show "trace u' = trace u @ map UpdateOld all_fields
           @ concat (replicate 100
               (map (\<lambda>f. Solve (call_for f)) all_fields @ [Plot ResidualViewer]))
           @ (if is_main
              then [Plot PhaseViewer, Plot ConcViewer, Plot PotentialViewer,
                    Print (elapsed u') (residual u')]
              else [])"
    by (simp add: 3 4)
qed

lemma chain_elapsed:
  assumes "\<sigma> 0 = s\<lparr>elapsed := 0\<rparr>"
    and "\<forall>i<n. outer_step is_main kern (\<sigma> i) = Inr (\<sigma> (Suc i))"
    and "i \<le> n"
  shows "elapsed (\<sigma> i) = real i"
  using assms(3)
proof (induction i)
  case 0
  then show ?case by (simp add: assms(1))
next
  case (Suc i)
  then have "outer_step is_main kern (\<sigma> i) = Inr (\<sigma> (Suc i))" "elapsed (\<sigma> i) = real i"
    using assms(2) by simp_all
  with outer_step_counts(3) [of is_main kern "\<sigma> i" "\<sigma> (Suc i)"] show ?case
    by (simp add: dt_def)
qed

section \<open>The claims\<close>

text \<open>
  C1. For every inner iteration of every outer step, the residual tracked by the loop
  equals the maximum, over all fields solved in that iteration (phase, potential, the two
  substitutional species, the interstitial species), of the maximum entry of that field's
  equation residual from its solve in that iteration, with the tracker starting at 0 at
  the beginning of the iteration. Stated for an inner iteration that starts in any store
  and completes: the tracker equals the maximum of 0 and the five maxima, and the residual
  array each equation holds at the end is the one the kernel returned for that field's
  call of this iteration.
\<close>

theorem C1_tracked_residual_is_max_over_fields:
  assumes "inner_iteration kern s = Inr s'"
  shows "residual s' = Max (insert 0 ((\<lambda>f. Max (set (eq_residual s' f))) ` set all_fields))
       \<and> (\<forall>f. eq_residual s' f \<noteq> []
              \<and> (\<exists>F v. kern (call_for f) F = Some (v, eq_residual s' f)))"
  using inner_iteration_residual [OF assms] inner_iteration_outputs(1) [OF assms]
  by blast

theorem C1_witness:
  "\<exists>s'. inner_iteration demo_kernel demo_store = Inr s'
      \<and> residual s' = Max (insert 0 ((\<lambda>f. Max (set (eq_residual s' f))) ` set all_fields))
      \<and> residual s' = 12"
proof -
  from inner_iteration_total [OF demo_kernel_succeeds demo_store_shape]
  obtain s' where s': "inner_iteration demo_kernel demo_store = Inr s'"
    by blast
  with demo_iteration_residual have "residual s' = 12"
    by (simp add: final_store_def)
  with s' C1_tracked_residual_is_max_over_fields [OF s'] show ?thesis
    by blast
qed

text \<open>
  C3. For every outer step the inner loop runs exactly the fixed budget of 100 iterations
  regardless of any residual value (there is no tolerance test), so over the whole run
  each field's equation solve is invoked exactly 500 * 100 times; the only outputs are
  the mutated field states and the residual history. Stated for every run that
  completes, whatever the kernel returns as residuals. The run is a chain of 500 outer
  steps from the store with \<open>elapsed = 0\<close> to the final store, which is all the run
  yields. Each of these outer steps is the snapshot pass followed by a chain of exactly
  100 inner iterations, whose last store holds the variables, the equation residuals,
  the residual variables and the residual of the step's end; what the step emits is the
  five \<open>updateOld\<close> calls, 100 times the five solves and the plot of the residual viewer,
  and, under \<open>__main__\<close>, three plots and the print of the elapsed time and the residual,
  nothing else; it solves each field's equation 100 times and ends at elapsed time
  \<open>i + 1\<close>. Over the run this makes 500 * 100 solves of each field's equation and
  500 * 100 inner iterations.
\<close>

theorem C3_fixed_iteration_budget:
  assumes "solve_loop is_main kern s = Inr s'"
  shows "\<exists>\<sigma>. \<sigma> 0 = s\<lparr>elapsed := 0\<rparr> \<and> \<sigma> 500 = s'
          \<and> (\<forall>i<500.
                outer_step is_main kern (\<sigma> i) = Inr (\<sigma> (Suc i))
              \<and> (\<exists>\<tau>. for_each call_updateOld all_fields (\<sigma> i) = Inr (\<tau> 0)
                    \<and> (\<forall>j<100. inner_iteration kern (\<tau> j) = Inr (\<tau> (Suc j)))
                    \<and> vars (\<sigma> (Suc i)) = vars (\<tau> 100)
                    \<and> eq_residual (\<sigma> (Suc i)) = eq_residual (\<tau> 100)
                    \<and> res_var (\<sigma> (Suc i)) = res_var (\<tau> 100)
                    \<and> residual (\<sigma> (Suc i)) = residual (\<tau> 100))
              \<and> trace (\<sigma> (Suc i)) = trace (\<sigma> i) @ map UpdateOld all_fields
                   @ concat (replicate 100
                       (map (\<lambda>f. Solve (call_for f)) all_fields @ [Plot ResidualViewer]))
                   @ (if is_main
                      then [Plot PhaseViewer, Plot ConcViewer, Plot PotentialViewer,
                            Print (elapsed (\<sigma> (Suc i))) (residual (\<sigma> (Suc i)))]
                      else [])
              \<and> (\<forall>f. solves_of f (trace (\<sigma> (Suc i))) = solves_of f (trace (\<sigma> i)) + 100)
              \<and> elapsed (\<sigma> (Suc i)) = real (Suc i))
          \<and> (\<forall>f. solves_of f (trace s') = solves_of f (trace s) + 500 * 100)
          \<and> count_list (trace s') (Plot ResidualViewer)
              = count_list (trace s) (Plot ResidualViewer) + 500 * 100
          \<and> elapsed s' = 500"
proof -
  note run = solve_loop_Inr [OF assms]
  from for_range_chain [OF run] obtain \<sigma> where
    \<sigma>: "\<sigma> 0 = s\<lparr>elapsed := 0\<rparr>" "\<sigma> 500 = s'"
       "\<forall>i<500. outer_step is_main kern (\<sigma> i) = Inr (\<sigma> (Suc i))"
    by blast
  have step: "outer_step is_main kern (\<sigma> i) = Inr (\<sigma> (Suc i))
      \<and> (\<exists>\<tau>. for_each call_updateOld all_fields (\<sigma> i) = Inr (\<tau> 0)
            \<and> (\<forall>j<100. inner_iteration kern (\<tau> j) = Inr (\<tau> (Suc j)))
            \<and> vars (\<sigma> (Suc i)) = vars (\<tau> 100)
            \<and> eq_residual (\<sigma> (Suc i)) = eq_residual (\<tau> 100)
            \<and> res_var (\<sigma> (Suc i)) = res_var (\<tau> 100)
            \<and> residual (\<sigma> (Suc i)) = residual (\<tau> 100))
      \<and> trace (\<sigma> (Suc i)) = trace (\<sigma> i) @ map UpdateOld all_fields
           @ concat (replicate 100
               (map (\<lambda>f. Solve (call_for f)) all_fields @ [Plot ResidualViewer]))
           @ (if is_main
              then [Plot PhaseViewer, Plot ConcViewer, Plot PotentialViewer,
                    Print (elapsed (\<sigma> (Suc i))) (residual (\<sigma> (Suc i)))]
              else [])
      \<and> (\<forall>f. solves_of f (trace (\<sigma> (Suc i))) = solves_of f (trace (\<sigma> i)) + 100)
      \<and> elapsed (\<sigma> (Suc i)) = real (Suc i)" if "i < 500" for i
  proof -
    from that \<sigma>(3) have o: "outer_step is_main kern (\<sigma> i) = Inr (\<sigma> (Suc i))"
      by simp
    from that have "Suc i \<le> 500"
      by simp
    from chain_elapsed [OF \<sigma>(1) \<sigma>(3) this]
    have "elapsed (\<sigma> (Suc i)) = real (Suc i)" .
    with o outer_step_shape [OF o] outer_step_counts(1) [OF o] show ?thesis
      by blast
  qed
  have "solves_of f (trace s') = solves_of f (trace (s\<lparr>elapsed := 0\<rparr>)) + 500 * 100" for f
    by (rule for_range_Inr_count [OF _ run]) (rule outer_step_counts)
  moreover have "count_list (trace s') (Plot ResidualViewer)
      = count_list (trace (s\<lparr>elapsed := 0\<rparr>)) (Plot ResidualViewer) + 500 * 100"
    by (rule for_range_Inr_count [OF _ run]) (rule outer_step_counts)
  moreover have "elapsed s' = elapsed (s\<lparr>elapsed := 0\<rparr>) + real 500 * dt"
    by (rule for_range_Inr_real [OF _ run]) (rule outer_step_counts)
  ultimately have totals: "(\<forall>f. solves_of f (trace s') = solves_of f (trace s) + 500 * 100)
          \<and> count_list (trace s') (Plot ResidualViewer)
              = count_list (trace s) (Plot ResidualViewer) + 500 * 100
          \<and> elapsed s' = 500"
    by (simp add: dt_def)
  from \<sigma>(1,2) step totals show ?thesis
    by blast
qed

theorem C3_witness:
  "\<exists>s'. solve_loop True demo_kernel demo_store = Inr s'
      \<and> (\<forall>f. solves_of f (trace s') = 50000)
      \<and> count_list (trace s') (Plot ResidualViewer) = 50000
      \<and> elapsed s' = 500"
proof -
  from solve_loop_total [OF demo_kernel_succeeds demo_store_shape]
  obtain s' where s': "solve_loop True demo_kernel demo_store = Inr s'"
    by blast
  have t: "trace demo_store = []"
    by (simp add: demo_store_def)
  from C3_fixed_iteration_budget [OF s']
  have "(\<forall>f. solves_of f (trace s') = solves_of f (trace demo_store) + 500 * 100)
          \<and> count_list (trace s') (Plot ResidualViewer)
              = count_list (trace demo_store) (Plot ResidualViewer) + 500 * 100
          \<and> elapsed s' = 500"
    by blast
  with s' t show ?thesis
    by (simp add: solves_of_def)
qed

text \<open>
  C4. In every inner iteration, every field's equation solve is invoked in the same fixed
  order (phase, then potential, then each substitutional, then each interstitial) with the
  one shared time step \<open>dt\<close> and with the boundary conditions, and the resulting residual
  of each solve is captured.

  The boundary conditions do not reach every solve: line 298 passes \<open>bcs\<close> to the solve
  of the potential only; lines 293 and 304 call the solves of the phase field and of the
  species without that argument. Here is an inner iteration whose phase solve carries no
  boundary conditions.
\<close>

theorem C4_phase_solve_without_bcs:
  "Solve \<lparr>equation = Phase, var = Phase, dt_arg = 1, bcs_arg = None, solver_arg = None\<rparr>
     \<in> set (trace (final_store (inner_iteration demo_kernel demo_store)))"
  by (simp add: demo_iteration_trace all_fields_def call_for_def phase_call_def dt_def)

text \<open>
  C4, as the loop does it. In every inner iteration that completes, the equation solves
  are invoked in the same fixed order (phase, potential, the substitutionals, the
  interstitial), each with \<open>var\<close> the field that owns the equation and with the one shared
  time step \<open>dt\<close>; the boundary conditions \<open>bcs\<close> are passed to the solve of the potential
  and to no other, the LU solver to the solves of the species and to no other; and the
  residual of each solve is captured: the residual variable of each field receives that
  field's equation residual.
\<close>

theorem C4_solve_order_and_arguments:
  assumes "inner_iteration kern s = Inr s'"
  shows "\<exists>evs. trace s' = trace s @ evs
           \<and> solve_calls evs =
               [\<lparr>equation = Phase, var = Phase, dt_arg = dt, bcs_arg = None,
                  solver_arg = None\<rparr>,
                \<lparr>equation = Potential, var = Potential, dt_arg = dt, bcs_arg = Some bcs,
                  solver_arg = None\<rparr>,
                \<lparr>equation = SO4, var = SO4, dt_arg = dt, bcs_arg = None,
                  solver_arg = Some solver\<rparr>,
                \<lparr>equation = Cu, var = Cu, dt_arg = dt, bcs_arg = None,
                  solver_arg = Some solver\<rparr>,
                \<lparr>equation = Electron, var = Electron, dt_arg = dt, bcs_arg = None,
                  solver_arg = Some solver\<rparr>]
           \<and> (\<forall>f. assign_slice (res_var s f) (eq_residual s' f) = Some (res_var s' f))"
proof -
  have "map call_for all_fields =
               [\<lparr>equation = Phase, var = Phase, dt_arg = dt, bcs_arg = None,
                  solver_arg = None\<rparr>,
                \<lparr>equation = Potential, var = Potential, dt_arg = dt, bcs_arg = Some bcs,
                  solver_arg = None\<rparr>,
                \<lparr>equation = SO4, var = SO4, dt_arg = dt, bcs_arg = None,
                  solver_arg = Some solver\<rparr>,
                \<lparr>equation = Cu, var = Cu, dt_arg = dt, bcs_arg = None,
                  solver_arg = Some solver\<rparr>,
                \<lparr>equation = Electron, var = Electron, dt_arg = dt, bcs_arg = None,
                  solver_arg = Some solver\<rparr>]"
    by (simp add: all_fields_def substitutionals_def interstitials_def call_for_def
        phase_call_def potential_call_def component_call_def)
  with iteration_calls inner_iteration_trace [OF assms] inner_iteration_res_var [OF assms]
  show ?thesis
    by metis
qed

theorem C4_witness:
  "\<exists>s'. inner_iteration demo_kernel demo_store = Inr s'
      \<and> map equation (solve_calls (trace s')) = [Phase, Potential, SO4, Cu, Electron]
      \<and> map bcs_arg (solve_calls (trace s')) = [None, Some bcs, None, None, None]
      \<and> res_var s' Phase = [12, 0]"
proof -
  from inner_iteration_total [OF demo_kernel_succeeds demo_store_shape]
  obtain s' where s': "inner_iteration demo_kernel demo_store = Inr s'"
    by blast
  have t: "trace demo_store = []"
    by (simp add: demo_store_def)
  have "res_var (final_store (inner_iteration demo_kernel demo_store)) Phase = [12, 0]"
    by (simp add: inner_iteration_def demo_kernel_def demo_store_def CellVariable_def final_store_def
      solve_def track_residual_def store_residual_def assign_def plot_def for_each_def
      phase_call_def potential_call_def component_call_def substitutionals_def interstitials_def
      assign_slice_def)
  with s' have "res_var s' Phase = [12, 0]"
    by (simp add: final_store_def)
  with C4_solve_order_and_arguments [OF s'] s' t show ?thesis
    by auto
qed

text \<open>
  C5. At the start of every outer step, before any equation solve of that step, every
  field in the ordered collection (phase, potential, substitutionals, interstitials) has
  its current value snapshotted into its ``old'' state via \<open>updateOld\<close>, so each field's old
  state equals its current value at the moment the outer step begins.

  The potential has no old state to snapshot: line 147 builds it without \<open>hasOld\<close>, where
  lines 73, 87 and 93 ask for it. Here is an outer step, from variables built as the
  example builds them, after which the old state of the potential is not its value at
  the start of the step.
\<close>

theorem C5_potential_keeps_no_old_state:
  "old (vars (final_store (outer_step True demo_kernel demo_store)) Potential)
     \<noteq> Some (val (vars demo_store Potential))"
proof -
  have "no_snapshot
     (demo_store\<lparr>vars := (\<lambda>f. updateOld (vars demo_store f)),
                  trace := trace demo_store @ map UpdateOld all_fields\<rparr>)
     (final_store (outer_step True demo_kernel demo_store))"
    by (rule outer_step_snapshots)
  then have "old (vars (final_store (outer_step True demo_kernel demo_store)) Potential)
      = old (updateOld (vars demo_store Potential))"
    by (simp add: no_snapshot_def)
  then show ?thesis
    by (simp add: updateOld_def demo_store_def CellVariable_def)
qed

text \<open>
  C5, as the loop does it. At the start of every outer step, before any equation solve
  of that step, \<open>updateOld\<close> is called on every field of the ordered collection (phase,
  potential, substitutionals, interstitials). Every field that keeps an old state (the
  phase field, the substitutionals, the interstitial) has its current value snapshotted
  into it, so its old state equals its value at the moment the step begins; the
  potential, built without \<open>hasOld\<close>, keeps no old state and the call does nothing for it.
  Stated for an outer step from any store whose variables are built with the flags of the
  example, whether the step completes or stops at an exception: the events of the step
  begin with the five \<open>updateOld\<close> calls in the order of the collection, no further
  \<open>updateOld\<close> follows, and the old states when the step ends are as said.
\<close>

theorem C5_snapshot_before_solves:
  assumes "as_built s"
  shows "(\<forall>f\<in>set all_fields. f \<noteq> Potential \<longrightarrow>
            old (vars (final_store (outer_step is_main kern s)) f) = Some (val (vars s f)))
       \<and> old (vars (final_store (outer_step is_main kern s)) Potential) = None
       \<and> (\<exists>evs. trace (final_store (outer_step is_main kern s))
                   = trace s @ map UpdateOld all_fields @ evs
                \<and> (\<forall>f. UpdateOld f \<notin> set evs))"
proof -
  have 1: "old (updateOld (vars s f)) = Some (val (vars s f))" if "f \<noteq> Potential" for f
  proof -
    from that have "hasOld f"
      by (cases f) simp_all
    moreover from assms have "(old (vars s f) \<noteq> None) = hasOld f"
      unfolding as_built_def by blast
    ultimately have "old (vars s f) \<noteq> None"
      by simp
    then show ?thesis
      by (auto simp: updateOld_def)
  qed
  from assms have "(old (vars s Potential) \<noteq> None) = hasOld Potential"
    unfolding as_built_def by blast
  then have "old (vars s Potential) = None"
    by simp
  then have 2: "old (updateOld (vars s Potential)) = None"
    by (simp add: updateOld_def)
  from outer_step_snapshots [of s is_main kern] 1 2 show ?thesis
    by (auto simp: no_snapshot_def)
qed

theorem C5_witness:
  "as_built demo_store
   \<and> Phase \<in> set all_fields
   \<and> old (vars (final_store (outer_step True demo_kernel demo_store)) Phase) = Some [4, 8]
   \<and> old (vars (final_store (outer_step True demo_kernel demo_store)) Potential) = None"
proof -
  have b: "as_built demo_store"
    unfolding as_built_def
  proof
    fix f show "(old (vars demo_store f) \<noteq> None) = hasOld f"
      by (cases f) (simp_all add: demo_store_def CellVariable_def)
  qed
  have "Phase \<in> set all_fields" "val (vars demo_store Phase) = [4, 8]"
    by (simp_all add: all_fields_def demo_store_def CellVariable_def)
  with C5_snapshot_before_solves [OF b, of True demo_kernel] b show ?thesis
    by auto
qed

text \<open>
  C6. If any field's equation solve raises a \<open>SolveFailure\<close> during any inner iteration,
  the loop performs no further solves, no retry and no recovery: the failure propagates
  immediately and aborts the run, leaving all fields in the state they had when the
  failure occurred. Stated in both directions for a point of the run: \<open>i\<close> completed
  outer steps, the snapshot pass of the next one, \<open>j\<close> completed inner iterations of it,
  and in the following inner iteration the completed solves of the fields that come
  before \<open>f\<close>, which leave the store \<open>u\<close>. Whenever the solve of \<open>f\<close> fails at such a
  point, the run ends there with \<open>SolveFailure\<close>, and its store is \<open>u\<close> with the failing
  call as the last entry of the log: no statement after the call is run, and the
  variables, equation residuals and residual variables are the ones the call found. And
  a run ends with \<open>SolveFailure\<close> only so.
\<close>

theorem C6_solve_failure_aborts_run:
  "solve_loop is_main kern s = Inl (SolveFailure, s') \<longleftrightarrow>
     (\<exists>i<500. \<exists>j<100. \<exists>f a b c u.
         for_range i (outer_step is_main kern) (s\<lparr>elapsed := 0\<rparr>) = Inr a
       \<and> for_each call_updateOld all_fields a = Inr b
       \<and> for_range j (inner_iteration kern) b = Inr c
       \<and> seq (map (\<lambda>g. solve_and_record kern (call_for g))
                (takeWhile (\<lambda>g. g \<noteq> f) all_fields)) (c\<lparr>residual := 0\<rparr>) = Inr u
       \<and> kern (call_for f) (vars u) = None
       \<and> s' = u\<lparr>trace := trace u @ [Solve (call_for f)]\<rparr>)"
  (is "?run \<longleftrightarrow> ?point")
proof
  assume ?run
  then have "for_range 500 (outer_step is_main kern) (s\<lparr>elapsed := 0\<rparr>)
      = Inl (SolveFailure, s')"
    by (simp only: solve_loop_Inl_iff)
  then obtain i a where i: "i < 500"
    "for_range i (outer_step is_main kern) (s\<lparr>elapsed := 0\<rparr>) = Inr a"
    "outer_step is_main kern a = Inl (SolveFailure, s')"
    unfolding for_range_Inl_iff by blast
  from i(3) obtain b where b: "for_each call_updateOld all_fields a = Inr b"
    "for_range 100 (inner_iteration kern) b = Inl (SolveFailure, s')"
    unfolding outer_step_Inl_iff by blast
  from b(2) obtain j c where j: "j < 100"
    "for_range j (inner_iteration kern) b = Inr c"
    "inner_iteration kern c = Inl (SolveFailure, s')"
    unfolding for_range_Inl_iff by blast
  from j(3) obtain f u where u:
    "seq (map (\<lambda>g. solve_and_record kern (call_for g))
        (takeWhile (\<lambda>g. g \<noteq> f) all_fields)) (c\<lparr>residual := 0\<rparr>) = Inr u"
    "solve_and_record kern (call_for f) u = Inl (SolveFailure, s')"
    unfolding inner_iteration_Inl_iff by blast
  from u(2) have "kern (call_for f) (vars u) = None"
    "s' = u\<lparr>trace := trace u @ [Solve (call_for f)]\<rparr>"
    unfolding solve_and_record_SolveFailure by simp_all
  with i(1,2) b(1) j(1,2) u(1) show ?point
    by blast
next
  assume ?point
  then obtain i j f a b c u where i: "i < 500" and j: "j < 100" and
    a: "for_range i (outer_step is_main kern) (s\<lparr>elapsed := 0\<rparr>) = Inr a" and
    b: "for_each call_updateOld all_fields a = Inr b" and
    c: "for_range j (inner_iteration kern) b = Inr c" and
    u: "seq (map (\<lambda>g. solve_and_record kern (call_for g))
        (takeWhile (\<lambda>g. g \<noteq> f) all_fields)) (c\<lparr>residual := 0\<rparr>) = Inr u" and
    k: "kern (call_for f) (vars u) = None" "s' = u\<lparr>trace := trace u @ [Solve (call_for f)]\<rparr>"
    by blast
  from k have "solve_and_record kern (call_for f) u = Inl (SolveFailure, s')"
    unfolding solve_and_record_SolveFailure by simp
  with u have "inner_iteration kern c = Inl (SolveFailure, s')"
    unfolding inner_iteration_Inl_iff by blast
  with j c have "for_range 100 (inner_iteration kern) b = Inl (SolveFailure, s')"
    unfolding for_range_Inl_iff by blast
  with b have "outer_step is_main kern a = Inl (SolveFailure, s')"
    unfolding outer_step_Inl_iff by blast
  with i a have "for_range 500 (outer_step is_main kern) (s\<lparr>elapsed := 0\<rparr>)
      = Inl (SolveFailure, s')"
    unfolding for_range_Inl_iff by blast
  then show ?run
    by (simp only: solve_loop_Inl_iff)
qed

theorem C6_witness:
  "\<exists>s'. solve_loop True cu_failing_kernel demo_store = Inl (SolveFailure, s')
      \<and> solve_calls (trace s') = [call_for Phase, call_for Potential, call_for SO4, call_for Cu]
      \<and> val (vars s' Phase) = [2, 4]
      \<and> val (vars s' Cu) = [4, 8]"
proof -
  let ?a = "demo_store\<lparr>elapsed := 0\<rparr>"
  let ?b = "?a\<lparr>vars := (\<lambda>f. updateOld (vars ?a f)),
               trace := trace ?a @ map UpdateOld all_fields\<rparr>"
  have z: "(0::nat) < 500" "(0::nat) < 100"
    by simp_all
  have a: "for_range 0 (outer_step True cu_failing_kernel) ?a = Inr ?a"
    by (rule for_range_0)
  have b: "for_each call_updateOld all_fields ?a = Inr ?b"
    by (rule update_pass)
  have c: "for_range 0 (inner_iteration cu_failing_kernel) ?b = Inr ?b"
    by (rule for_range_0)
  have "\<exists>u. seq (map (\<lambda>g. solve_and_record cu_failing_kernel (call_for g))
                (takeWhile (\<lambda>g. g \<noteq> Cu) all_fields)) (?b\<lparr>residual := 0\<rparr>) = Inr u
          \<and> solve_calls (trace u) = [call_for Phase, call_for Potential, call_for SO4]
          \<and> val (vars u Phase) = [2, 4] \<and> val (vars u Cu) = [4, 8]"
    by (simp add: all_fields_def substitutionals_def interstitials_def solve_and_record_def
        solve_def track_residual_def store_residual_def assign_slice_def cu_failing_kernel_def
        demo_kernel_def demo_store_def CellVariable_def updateOld_def call_for_def
        phase_call_def potential_call_def component_call_def solve_calls_append)
  then obtain u where
    u: "seq (map (\<lambda>g. solve_and_record cu_failing_kernel (call_for g))
                (takeWhile (\<lambda>g. g \<noteq> Cu) all_fields)) (?b\<lparr>residual := 0\<rparr>) = Inr u" and
    v: "solve_calls (trace u) = [call_for Phase, call_for Potential, call_for SO4]"
       "val (vars u Phase) = [2, 4]" "val (vars u Cu) = [4, 8]"
    by blast
  have k: "cu_failing_kernel (call_for Cu) (vars u) = None"
    by (simp add: cu_failing_kernel_def call_for_owner)
  let ?s' = "u\<lparr>trace := trace u @ [Solve (call_for Cu)]\<rparr>"
  from z a b c u k
  have "\<exists>i<500. \<exists>j<100. \<exists>f a b c u.
         for_range i (outer_step True cu_failing_kernel) (demo_store\<lparr>elapsed := 0\<rparr>) = Inr a
       \<and> for_each call_updateOld all_fields a = Inr b
       \<and> for_range j (inner_iteration cu_failing_kernel) b = Inr c
       \<and> seq (map (\<lambda>g. solve_and_record cu_failing_kernel (call_for g))
                (takeWhile (\<lambda>g. g \<noteq> f) all_fields)) (c\<lparr>residual := 0\<rparr>) = Inr u
       \<and> cu_failing_kernel (call_for f) (vars u) = None
       \<and> ?s' = u\<lparr>trace := trace u @ [Solve (call_for f)]\<rparr>"
    by blast
  then have "solve_loop True cu_failing_kernel demo_store = Inl (SolveFailure, ?s')"
    by (rule C6_solve_failure_aborts_run [THEN iffD2])
  moreover have "solve_calls (trace ?s')
      = [call_for Phase, call_for Potential, call_for SO4, call_for Cu]"
    "val (vars ?s' Phase) = [2, 4]" "val (vars ?s' Cu) = [4, 8]"
    using v by (simp_all add: solve_calls_append)
  ultimately show ?thesis
    by blast
qed

text \<open>
  C7. Within every inner iteration, each field's value array is mutated only by that
  field's own equation solve (every solve call is invoked with \<open>var\<close> equal to the field
  that owns the equation), and at most one solve mutates a given field's array per inner
  iteration; other fields' equations read that field's current values but never write its
  array. Stated for a completed inner iteration: every solve call of the iteration has
  \<open>var\<close> equal to the owner of the equation, no field is the \<open>var\<close> of two calls, the value
  array each field has at the end is the one the kernel returned for that field's own
  call, the ``old'' states are untouched; and a solve leaves every variable other than
  its \<open>var\<close> as it was.
\<close>

theorem C7_only_own_solve_writes_field:
  assumes "inner_iteration kern s = Inr s'"
  shows "(\<exists>evs. trace s' = trace s @ evs
            \<and> (\<forall>c\<in>set (solve_calls evs). var c = equation c)
            \<and> distinct (map var (solve_calls evs))
            \<and> (\<forall>f. \<exists>c\<in>set (solve_calls evs). var c = f
                     \<and> (\<exists>F r. kern c F = Some (val (vars s' f), r))))
       \<and> (\<forall>f. old (vars s' f) = old (vars s f))
       \<and> (\<forall>c t u g. solve kern c t = Inr u \<longrightarrow> g \<noteq> var c \<longrightarrow> vars u g = vars t g)"
proof -
  let ?evs = "map (\<lambda>f. Solve (call_for f)) all_fields @ [Plot ResidualViewer]"
  have calls: "solve_calls ?evs = map call_for all_fields"
    by (rule iteration_calls)
  have 1: "\<forall>c\<in>set (solve_calls ?evs). var c = equation c"
    unfolding calls by (auto simp: call_for_owner)
  have "map var (map call_for all_fields) = all_fields"
    by (simp add: call_for_owner map_idI)
  then have 2: "distinct (map var (solve_calls ?evs))"
    unfolding calls by (simp add: all_fields_def substitutionals_def interstitials_def)
  have 3: "\<exists>c\<in>set (solve_calls ?evs). var c = f
      \<and> (\<exists>F r. kern c F = Some (val (vars s' f), r))" for f
  proof -
    have "f \<in> set all_fields"
      by (cases f) (simp_all add: all_fields_def substitutionals_def interstitials_def)
    then have "call_for f \<in> set (solve_calls ?evs)"
      unfolding calls by simp
    with inner_iteration_outputs(1) [OF assms, of f] call_for_owner(2) [of f] show ?thesis
      by blast
  qed
  from 1 2 3 inner_iteration_trace [OF assms]
  have "\<exists>evs. trace s' = trace s @ evs
            \<and> (\<forall>c\<in>set (solve_calls evs). var c = equation c)
            \<and> distinct (map var (solve_calls evs))
            \<and> (\<forall>f. \<exists>c\<in>set (solve_calls evs). var c = f
                     \<and> (\<exists>F r. kern c F = Some (val (vars s' f), r)))"
    by blast
  with inner_iteration_outputs(2) [OF assms] solve_frame show ?thesis
    by blast
qed

theorem C7_witness:
  "\<exists>s'. inner_iteration demo_kernel demo_store = Inr s'
      \<and> map var (solve_calls (trace s')) = map equation (solve_calls (trace s'))
      \<and> distinct (map var (solve_calls (trace s')))
      \<and> old (vars s' Cu) = Some [4, 8]"
proof -
  from inner_iteration_total [OF demo_kernel_succeeds demo_store_shape]
  obtain s' where s': "inner_iteration demo_kernel demo_store = Inr s'"
    by blast
  have t: "trace demo_store = []" "old (vars demo_store Cu) = Some [4, 8]"
    by (simp_all add: demo_store_def CellVariable_def)
  from C7_only_own_solve_writes_field [OF s'] s' t show ?thesis
    by (auto simp: map_eq_conv)
qed



text \<open>
  C9. The solve loop is deterministic: given identical initial field values, mesh,
  parameters, \<open>dt\<close> and iteration counts, two runs of the loop produce identical final
  value arrays for every field, because the fields are solved in a fixed order and later
  fields' equations read earlier fields' just-updated values within the same inner
  iteration. Stated for two runs with the same kernel from two stores that agree on the
  current value of every field, on which variables keep an old state and on the shape of
  the residual variables, and may differ in everything else (the content of the ``old''
  states, equation residuals, elapsed time, residual tracker, log): both runs end the same way, completed or with the same exception, and
  with the same variables. The coupling is part of the statement: in every completed
  inner iteration the solve of a field is made on the new values of the fields that come
  before it in the fixed order and on the previous values of the others, and what it
  returns is the value the field has when the iteration ends.
\<close>

theorem C9_runs_from_equal_values_agree:
  assumes "\<forall>f. val (vars s1 f) = val (vars s2 f)"
    and "\<forall>f. (old (vars s1 f) = None) = (old (vars s2 f) = None)"
    and "\<forall>f. length (res_var s1 f) = length (res_var s2 f)"
  shows "outcome (solve_loop is_main kern s1) = outcome (solve_loop is_main kern s2)
       \<and> vars (final_store (solve_loop is_main kern s1))
           = vars (final_store (solve_loop is_main kern s2))
       \<and> (\<forall>s s' f. inner_iteration kern s = Inr s' \<longrightarrow>
             (\<exists>F. kern (call_for f) F = Some (val (vars s' f), eq_residual s' f)
                \<and> (\<forall>g. F g = (if g \<in> set (takeWhile (\<lambda>x. x \<noteq> f) all_fields)
                                then vars s' g else vars s g))))"
proof -
  let ?body = "outer_step is_main kern"
  have run: "solve_loop is_main kern s =
      (case ?body (s\<lparr>elapsed := 0\<rparr>) of Inl x \<Rightarrow> Inl x | Inr t \<Rightarrow> for_range 499 ?body t)"
    for s
  proof -
    have "for_range 500 ?body (s\<lparr>elapsed := 0\<rparr>) = for_range (Suc 499) ?body (s\<lparr>elapsed := 0\<rparr>)"
      by simp
    then show ?thesis
      unfolding for_range_Suc
      by (simp add: solve_loop_def assign_def split: sum.splits)
  qed
  have first: "same_outcome (?body (s1\<lparr>elapsed := 0\<rparr>)) (?body (s2\<lparr>elapsed := 0\<rparr>))"
    by (rule outer_step_same_values) (use assms in simp_all)
  have rest: "same_fields a b \<Longrightarrow> same_outcome (for_range 499 ?body a) (for_range 499 ?body b)"
    for a b
    by (rule for_range_same) (simp_all add: outer_step_same)
  from same_outcome_bind [OF first, of "for_range 499 ?body"] rest
  have "same_outcome (solve_loop is_main kern s1) (solve_loop is_main kern s2)"
    unfolding run by blast
  then have "outcome (solve_loop is_main kern s1) = outcome (solve_loop is_main kern s2)
       \<and> vars (final_store (solve_loop is_main kern s1))
           = vars (final_store (solve_loop is_main kern s2))"
    by (simp add: same_outcome_def same_fields_def)
  with inner_iteration_reads(1) show ?thesis
    by blast
qed

theorem C9_witness:
  "(\<forall>f. val (vars demo_store f) = val (vars other_store f))
   \<and> (\<forall>f. (old (vars demo_store f) = None) = (old (vars other_store f) = None))
   \<and> (\<forall>f. length (res_var demo_store f) = length (res_var other_store f))
   \<and> elapsed demo_store \<noteq> elapsed other_store
   \<and> vars demo_store \<noteq> vars other_store
   \<and> vars (final_store (solve_loop True demo_kernel demo_store))
       = vars (final_store (solve_loop True demo_kernel other_store))"
proof -
  have 1: "\<forall>f. val (vars demo_store f) = val (vars other_store f)"
    and 0: "\<forall>f. (old (vars demo_store f) = None) = (old (vars other_store f) = None)"
    and 2: "\<forall>f. length (res_var demo_store f) = length (res_var other_store f)"
    and 3: "elapsed demo_store \<noteq> elapsed other_store"
    by (simp_all add: demo_store_def other_store_def CellVariable_def)
  have "old (vars demo_store Phase) \<noteq> old (vars other_store Phase)"
    by (simp add: demo_store_def other_store_def CellVariable_def)
  then have 4: "vars demo_store \<noteq> vars other_store"
    by metis
  from C9_runs_from_equal_values_agree [OF 1 0 2] 0 1 2 3 4 show ?thesis
    by blast
qed

text \<open>
  C10. The residual held at the end of each outer step (the one printed with the elapsed
  time) reflects only the final inner iteration of that step, not the maximum across all
  100 inner iterations: the tracker is reset to 0 at the start of every inner iteration.
  Stated for every outer step that completes: the step is the snapshot pass, 99 inner
  iterations, and a 100th one; the residual at the end of the step is the one that 100th
  iteration leaves, which is the maximum of 0 and the maxima of the residual arrays of
  that iteration's five solves; when the step prints, it prints this value.
\<close>

theorem C10_reported_residual_is_last_iteration:
  assumes "outer_step is_main kern s = Inr s'"
  shows "\<exists>s0 t u. for_each call_updateOld all_fields s = Inr s0
           \<and> for_range 99 (inner_iteration kern) s0 = Inr t
           \<and> inner_iteration kern t = Inr u
           \<and> residual s' = residual u \<and> eq_residual s' = eq_residual u
           \<and> residual u = Max (insert 0 ((\<lambda>f. Max (set (eq_residual u f))) ` set all_fields))
           \<and> (\<forall>f. \<exists>F v. kern (call_for f) F = Some (v, eq_residual u f))
           \<and> (is_main \<longrightarrow> last (trace s') = Print (elapsed s') (residual u))"
proof -
  from assms obtain s0 w where
    1: "for_each call_updateOld all_fields s = Inr s0" and
    2: "for_range 100 (inner_iteration kern) s0 = Inr w" and
    3: "residual s' = residual w" "elapsed s' = elapsed w + dt"
       "eq_residual s' = eq_residual w" and
    4: "trace s' = trace w @ (if is_main
        then [Plot PhaseViewer, Plot ConcViewer, Plot PotentialViewer,
              Print (elapsed w + dt) (residual w)]
        else [])"
    by (rule outer_step_Inr)
  from 2 have "for_range (Suc 99) (inner_iteration kern) s0 = Inr w"
    by simp
  then obtain t where
    t: "for_range 99 (inner_iteration kern) s0 = Inr t" "inner_iteration kern t = Inr w"
    unfolding for_range_snoc_Inr by blast
  have "is_main \<longrightarrow> last (trace s') = Print (elapsed s') (residual w)"
    by (simp add: 3 4)
  with 1 t 3 inner_iteration_residual(1) [OF t(2)] inner_iteration_outputs(1) [OF t(2)]
  show ?thesis
    by blast
qed

theorem C10_witness:
  "\<exists>s'. outer_step True demo_kernel demo_store = Inr s'
      \<and> residual s' = Max (insert 0 ((\<lambda>f. Max (set (eq_residual s' f))) ` set all_fields))
      \<and> last (trace s') = Print (elapsed s') (residual s')"
proof -
  from outer_step_total [OF demo_kernel_succeeds demo_store_shape]
  obtain s' where s': "outer_step True demo_kernel demo_store = Inr s'"
    by blast
  from C10_reported_residual_is_last_iteration [OF s'] s' show ?thesis
    by auto
qed

end
